theory Spec2Isabelle
  imports Main "HOL-Library.Word" "HOL-Library.AList" "HOL-Library.Multiset"
begin

section \<open>TranscodingSessionController: data model\<close>

text \<open>
  The controller keeps a registry of sessions (\<open>mSessionMap\<close>, a \<open>std::map\<close> keyed by
  (client id, session id)), one queue of session keys per uid (\<open>mSessionQueues\<close>), the
  list of uids by priority (\<open>mUidSortedList\<close>), the pointer to the current session and
  the resource-lost flag. Both \<open>std::map\<close>s are association lists here; the registry is
  kept in key order, since \<open>cancel\<close> iterates over it. A \<open>Session*\<close> into the registry
  is the key of the entry it points to (nodes of a \<open>std::map\<close> do not move).
\<close>

type_synonym ClientIdType = int
type_synonym SessionIdType = int
type_synonym uid_t = "32 word"
type_synonym SessionKeyType = "ClientIdType \<times> SessionIdType"
type_synonym SessionQueueType = "SessionKeyType list"

text \<open>An \<open>ITranscodingClientCallback\<close> object, by identity; sessions hold it weakly.\<close>
type_synonym Callback = nat

definition OFFLINE_UID :: uid_t where
  "OFFLINE_UID = - 1"

datatype SessionState = NOT_STARTED | RUNNING | PAUSED

datatype TranscodingSessionPriority = kUnspecified | kLow | kNormal | kHigh

record TranscodingRequestParcel =
  sourceFilePath :: string
  destinationFilePath :: string
  priority :: TranscodingSessionPriority

record Session =
  key :: SessionKeyType
  uid :: uid_t
  state :: SessionState
  lastProgress :: int
  request :: TranscodingRequestParcel
  callback :: Callback

text \<open>
  Every call the controller makes on a collaborator: the transcoder
  (\<open>mTranscoder\<close>), the uid policy (\<open>mUidPolicy\<close>) and the clients' callbacks. A
  callback handed to the transcoder is the result of \<open>callback.lock()\<close>, which is null
  once the client has gone.
\<close>

datatype Event =
    TranscoderStart ClientIdType SessionIdType TranscodingRequestParcel "Callback option"
  | TranscoderPause ClientIdType SessionIdType
  | TranscoderResume ClientIdType SessionIdType TranscodingRequestParcel "Callback option"
  | TranscoderStop ClientIdType SessionIdType
  | RegisterMonitorUid uid_t
  | UnregisterMonitorUid uid_t
  | OnTranscodingStarted Callback SessionIdType
  | OnTranscodingPaused Callback SessionIdType
  | OnTranscodingResumed Callback SessionIdType
  | OnTranscodingFinished Callback SessionIdType
  | OnTranscodingFailed Callback SessionIdType int
  | OnProgressUpdate Callback SessionIdType int

text \<open>
  What the collaborators answer during one call of an entry point. \<open>getTopUids\<close> is
  asked once for each session whose removal empties a queue, and the policy may change
  between two such calls, so its answer is indexed by the session being removed.
\<close>

record Env =
  isUidOnTop :: "uid_t \<Rightarrow> bool"
  getTopUids :: "SessionKeyType \<Rightarrow> uid_t set"
  lockCallback :: "Callback \<Rightarrow> bool"

record Controller =
  mSessionMap :: "(SessionKeyType \<times> Session) list"
  mSessionQueues :: "(uid_t \<times> SessionQueueType) list"
  mUidSortedList :: "uid_t list"
  mCurrentSession :: "SessionKeyType option"
  mResourceLost :: bool
  effects :: "Event list"

text \<open>
  Where the C++ would dereference \<open>begin()\<close> of an empty list or a pointer to an erased
  session (undefined behaviour), where \<open>operator[]\<close> would fabricate a registry entry
  for a key that is not there, and where \<open>validateState_l\<close> aborts the process, the
  model stops with a fault.
\<close>

datatype Fault = EmptyListDeref | DanglingSession | FabricatedEntry | ValidateStateFatal

subsection \<open>The two maps\<close>

definition key_less :: "SessionKeyType \<Rightarrow> SessionKeyType \<Rightarrow> bool" where
  "key_less a b = (fst a < fst b \<or> (fst a = fst b \<and> snd a < snd b))"

fun insertSession :: "SessionKeyType \<Rightarrow> Session \<Rightarrow> (SessionKeyType \<times> Session) list
    \<Rightarrow> (SessionKeyType \<times> Session) list" where
  "insertSession k v [] = [(k, v)]"
| "insertSession k v ((k', v') # m) =
     (if key_less k k' then (k, v) # (k', v') # m
      else if k = k' then (k, v) # m
      else (k', v') # insertSession k v m)"

definition findSession :: "(SessionKeyType \<times> Session) list \<Rightarrow> SessionKeyType \<Rightarrow> Session option" where
  "findSession m k = map_of m k"

definition eraseSession :: "SessionKeyType \<Rightarrow> (SessionKeyType \<times> Session) list
    \<Rightarrow> (SessionKeyType \<times> Session) list" where
  "eraseSession k m = filter (\<lambda>e. fst e \<noteq> k) m"

definition modifySession :: "SessionKeyType \<Rightarrow> (Session \<Rightarrow> Session)
    \<Rightarrow> (SessionKeyType \<times> Session) list \<Rightarrow> (SessionKeyType \<times> Session) list" where
  "modifySession k f m = map (\<lambda>e. if fst e = k then (fst e, f (snd e)) else e) m"

text \<open>\<open>mSessionQueues[uid]\<close> read: the queue, empty when \<open>operator[]\<close> has to create it.\<close>

definition queueAt :: "(uid_t \<times> SessionQueueType) list \<Rightarrow> uid_t \<Rightarrow> SessionQueueType" where
  "queueAt qs u = (case map_of qs u of None \<Rightarrow> [] | Some q \<Rightarrow> q)"

definition emit :: "Event \<Rightarrow> Controller \<Rightarrow> Controller" where
  "emit e s = s\<lparr>effects := effects s @ [e]\<rparr>"

definition setState :: "SessionKeyType \<Rightarrow> SessionState \<Rightarrow> Controller \<Rightarrow> Controller" where
  "setState k st s = s\<lparr>mSessionMap := modifySession k (\<lambda>x. x\<lparr>state := st\<rparr>) (mSessionMap s)\<rparr>"

text \<open>The result of \<open>callback.lock()\<close>.\<close>

definition lock :: "Env \<Rightarrow> Callback \<Rightarrow> Callback option" where
  "lock env cb = (if lockCallback env cb then Some cb else None)"

section \<open>TranscodingSessionController: operations\<close>

text \<open>The constructor: only the empty offline queue.\<close>

definition initController :: Controller where
  "initController = \<lparr>mSessionMap = [], mSessionQueues = [(OFFLINE_UID, [])],
     mUidSortedList = [OFFLINE_UID], mCurrentSession = None, mResourceLost = False,
     effects = []\<rparr>"

definition getTopSession_l :: "Controller \<Rightarrow> Fault + SessionKeyType option" where
  "getTopSession_l s =
     (if mSessionMap s = [] then Inr None
      else case mUidSortedList s of
        [] \<Rightarrow> Inl EmptyListDeref
      | topUid # _ \<Rightarrow>
          (case queueAt (mSessionQueues s) topUid of
             [] \<Rightarrow> Inl EmptyListDeref
           | topSessionKey # _ \<Rightarrow>
               (if findSession (mSessionMap s) topSessionKey = None then Inl FabricatedEntry
                else Inr (Some topSessionKey))))"

text \<open>
  \<open>updateCurrentSession_l\<close>, first block: pause the current session when it is running.
  \<open>curSession->state\<close> reads through the pointer.
\<close>

definition pauseCurrent :: "Controller \<Rightarrow> Fault + Controller" where
  "pauseCurrent s =
     (case mCurrentSession s of
        None \<Rightarrow> Inr s
      | Some cur \<Rightarrow>
          (case findSession (mSessionMap s) cur of
             None \<Rightarrow> Inl DanglingSession
           | Some curSession \<Rightarrow>
               if state curSession = RUNNING
               then Inr (setState cur PAUSED
                      (emit (TranscoderPause (fst (key curSession)) (snd (key curSession))) s))
               else Inr s))"

text \<open>Second block: start or resume the top session unless the resource is lost.\<close>

definition startTop :: "Env \<Rightarrow> SessionKeyType \<Rightarrow> Controller \<Rightarrow> Fault + Controller" where
  "startTop env topKey s =
     (if mResourceLost s then Inr s
      else case findSession (mSessionMap s) topKey of
        None \<Rightarrow> Inl DanglingSession
      | Some topSession \<Rightarrow>
          Inr (setState topKey RUNNING
            (if state topSession = NOT_STARTED
             then emit (TranscoderStart (fst (key topSession)) (snd (key topSession))
                    (request topSession)
                    (lock env (callback topSession))) s
             else if state topSession = PAUSED
             then emit (TranscoderResume (fst (key topSession)) (snd (key topSession))
                    (request topSession)
                    (lock env (callback topSession))) s
             else s)))"

definition updateCurrentSession_l :: "Env \<Rightarrow> Controller \<Rightarrow> Fault + Controller" where
  "updateCurrentSession_l env s =
     (case getTopSession_l s of
        Inl f \<Rightarrow> Inl f
      | Inr None \<Rightarrow> Inr (s\<lparr>mCurrentSession := None\<rparr>)
      | Inr (Some topKey) \<Rightarrow>
          (case findSession (mSessionMap s) topKey of
             None \<Rightarrow> Inl DanglingSession
           | Some topSession \<Rightarrow>
               if Some topKey \<noteq> mCurrentSession s \<or> state topSession \<noteq> RUNNING
               then (case pauseCurrent s of
                       Inl f \<Rightarrow> Inl f
                     | Inr s1 \<Rightarrow>
                         (case startTop env topKey s1 of
                            Inl f \<Rightarrow> Inl f
                          | Inr s2 \<Rightarrow> Inr (s2\<lparr>mCurrentSession := Some topKey\<rparr>)))
               else Inr (s\<lparr>mCurrentSession := Some topKey\<rparr>)))"

text \<open>
  The loop of \<open>moveUidsToTop_l\<close> over the part of the list not yet visited. \<open>pushed\<close>
  are the uids already moved to the front (the last one moved first), \<open>kept\<close> the
  visited uids that stay where they are, so that the list is \<open>pushed @ kept @ rest\<close> at
  every iteration.
\<close>

fun moveLoop :: "uid_t set \<Rightarrow> bool \<Rightarrow> uid_t \<Rightarrow> uid_t list \<Rightarrow> uid_t list \<Rightarrow> uid_t list
    \<Rightarrow> bool \<Rightarrow> nat \<Rightarrow> uid_t list \<times> bool" where
  "moveLoop uids preserveTopUid curTopUid [] pushed kept pushCurTopToFront numUidsMoved =
     (pushed @ kept, pushCurTopToFront)"
| "moveLoop uids preserveTopUid curTopUid (u # rest) pushed kept pushCurTopToFront numUidsMoved =
     (if u \<noteq> OFFLINE_UID \<and> u \<in> uids then
        (let pushCur = (pushCurTopToFront \<or> (u = curTopUid \<and> preserveTopUid));
             pushed' = (if u = curTopUid \<and> preserveTopUid then pushed else u # pushed)
         in if Suc numUidsMoved = card uids then (pushed' @ kept @ rest, pushCur)
            else moveLoop uids preserveTopUid curTopUid rest pushed' kept pushCur
                   (Suc numUidsMoved))
      else moveLoop uids preserveTopUid curTopUid rest pushed (kept @ [u])
             pushCurTopToFront numUidsMoved)"

definition moveUidsToTop_l :: "uid_t set \<Rightarrow> bool \<Rightarrow> Controller \<Rightarrow> Fault + Controller" where
  "moveUidsToTop_l uids preserveTopUid s =
     (if uids = {} then Inr s
      else case mUidSortedList s of
        [] \<Rightarrow> Inl EmptyListDeref
      | curTopUid # _ \<Rightarrow>
          (case moveLoop uids preserveTopUid curTopUid (mUidSortedList s) [] [] False 0 of
             (l, pushCurTopToFront) \<Rightarrow>
               Inr (s\<lparr>mUidSortedList := (if pushCurTopToFront then curTopUid # l else l)\<rparr>)))"

definition removeSession_l :: "Env \<Rightarrow> SessionKeyType \<Rightarrow> Controller \<Rightarrow> Fault + Controller" where
  "removeSession_l env sessionKey s =
     (case findSession (mSessionMap s) sessionKey of
        None \<Rightarrow> Inr s
      | Some session \<Rightarrow>
          (let u = uid session;
               sessionQueue = queueAt (mSessionQueues s) u
           in if sessionKey \<notin> set sessionQueue
              then Inr (s\<lparr>mSessionQueues := AList.update u sessionQueue (mSessionQueues s)\<rparr>)
              else
                (let sessionQueue' = remove1 sessionKey sessionQueue;
                     s1 = s\<lparr>mSessionQueues := AList.update u sessionQueue' (mSessionQueues s)\<rparr>;
                     r = (if u \<noteq> OFFLINE_UID \<and> sessionQueue' = []
                          then moveUidsToTop_l (getTopUids env sessionKey) False
                                 (emit (UnregisterMonitorUid u)
                                   (s1\<lparr>mUidSortedList := removeAll u (mUidSortedList s1),
                                       mSessionQueues := AList.delete u (mSessionQueues s1)\<rparr>))
                          else Inr s1)
                 in case r of
                      Inl f \<Rightarrow> Inl f
                    | Inr s2 \<Rightarrow>
                        Inr (s2\<lparr>mCurrentSession :=
                                  (if mCurrentSession s2 = Some sessionKey then None
                                   else mCurrentSession s2),
                                mSessionMap := eraseSession sessionKey (mSessionMap s2)\<rparr>))))"

text \<open>
  \<open>validateState_l\<close>: true when none of its \<open>LOG_ALWAYS_FATAL_IF\<close> fires.
  \<open>mOfflineUidIterator\<close> is the position of the offline uid in the list.
\<close>

definition validateState_l :: "Controller \<Rightarrow> bool" where
  "validateState_l s =
     (map_of (mSessionQueues s) OFFLINE_UID \<noteq> None
      \<and> OFFLINE_UID \<in> set (mUidSortedList s)
      \<and> length (mUidSortedList s) = length (mSessionQueues s)
      \<and> list_all (\<lambda>u. map_of (mSessionQueues s) u \<noteq> None
            \<and> list_all (\<lambda>k. findSession (mSessionMap s) k \<noteq> None) (queueAt (mSessionQueues s) u))
          (mUidSortedList s)
      \<and> length (mSessionMap s) = sum_list (map (\<lambda>u. length (queueAt (mSessionQueues s) u)) (mUidSortedList s)))"

definition validated :: "Controller \<Rightarrow> Fault + Controller" where
  "validated s = (if validateState_l s then Inr s else Inl ValidateStateFatal)"

text \<open>\<open>mUidSortedList.insert(mOfflineUidIterator, uid)\<close>.\<close>

definition insertBeforeOffline :: "uid_t \<Rightarrow> uid_t list \<Rightarrow> uid_t list" where
  "insertBeforeOffline u l =
     takeWhile (\<lambda>x. x \<noteq> OFFLINE_UID) l @ u # dropWhile (\<lambda>x. x \<noteq> OFFLINE_UID) l"

text \<open>The part of \<open>submit\<close> that places the uid of a real-time session in the list.\<close>

definition placeUid :: "Env \<Rightarrow> uid_t \<Rightarrow> Controller \<Rightarrow> Fault + Controller" where
  "placeUid env u s =
     (if u \<noteq> OFFLINE_UID then
        (if map_of (mSessionQueues s) u = None then
           (let s1 = emit (RegisterMonitorUid u) s
            in if isUidOnTop env u
               then Inr (s1\<lparr>mUidSortedList := u # mUidSortedList s1\<rparr>)
               else Inr (s1\<lparr>mUidSortedList := insertBeforeOffline u (mUidSortedList s1)\<rparr>))
         else case mUidSortedList s of
           [] \<Rightarrow> Inl EmptyListDeref
         | front # _ \<Rightarrow>
             if u \<noteq> front \<and> isUidOnTop env u
             then Inr (s\<lparr>mUidSortedList := u # removeAll u (mUidSortedList s)\<rparr>)
             else Inr s)
      else Inr s)"

definition submit :: "Env \<Rightarrow> ClientIdType \<Rightarrow> SessionIdType \<Rightarrow> uid_t \<Rightarrow> TranscodingRequestParcel
    \<Rightarrow> Callback \<Rightarrow> Controller \<Rightarrow> Fault + (bool \<times> Controller)" where
  "submit env clientId sessionId callerUid req cb s =
     (let sessionKey = (clientId, sessionId)
      in if findSession (mSessionMap s) sessionKey \<noteq> None then Inr (False, s)
         else
           (let u = (if priority req = kUnspecified then OFFLINE_UID else callerUid);
                s1 = s\<lparr>mSessionMap := insertSession sessionKey
                        \<lparr>key = sessionKey, uid = u, state = NOT_STARTED, lastProgress = 0,
                         request = req, callback = cb\<rparr> (mSessionMap s)\<rparr>
            in case placeUid env u s1 of
                 Inl f \<Rightarrow> Inl f
               | Inr s2 \<Rightarrow>
                   (case updateCurrentSession_l env
                           (s2\<lparr>mSessionQueues := AList.update u
                                 (queueAt (mSessionQueues s2) u @ [sessionKey]) (mSessionQueues s2)\<rparr>) of
                      Inl f \<Rightarrow> Inl f
                    | Inr s3 \<Rightarrow>
                        (case validated s3 of Inl f \<Rightarrow> Inl f | Inr s4 \<Rightarrow> Inr (True, s4)))))"

text \<open>One iteration of the loop of \<open>cancel\<close> over \<open>sessionsToRemove\<close>.\<close>

definition cancelOne :: "Env \<Rightarrow> SessionKeyType \<Rightarrow> Controller \<Rightarrow> Fault + Controller" where
  "cancelOne env k s =
     (case findSession (mSessionMap s) k of
        None \<Rightarrow> Inl FabricatedEntry
      | Some session \<Rightarrow>
          removeSession_l env k
            (if state session \<noteq> NOT_STARTED then emit (TranscoderStop (fst k) (snd k)) s else s))"

fun cancelAll :: "Env \<Rightarrow> SessionKeyType list \<Rightarrow> Controller \<Rightarrow> Fault + Controller" where
  "cancelAll env [] s = Inr s"
| "cancelAll env (k # ks) s =
     (case cancelOne env k s of Inl f \<Rightarrow> Inl f | Inr s1 \<Rightarrow> cancelAll env ks s1)"

definition sessionsToRemove :: "ClientIdType \<Rightarrow> Controller \<Rightarrow> SessionKeyType list" where
  "sessionsToRemove clientId s =
     map fst (filter (\<lambda>e. fst (fst e) = clientId \<and> uid (snd e) \<noteq> OFFLINE_UID) (mSessionMap s))"

definition cancel :: "Env \<Rightarrow> ClientIdType \<Rightarrow> SessionIdType \<Rightarrow> Controller
    \<Rightarrow> Fault + (bool \<times> Controller)" where
  "cancel env clientId sessionId s =
     (let sessionKey = (clientId, sessionId)
      in if \<not> sessionId < 0 \<and> findSession (mSessionMap s) sessionKey = None then Inr (False, s)
         else
           (case cancelAll env
                   (if sessionId < 0 then sessionsToRemove clientId s else [sessionKey]) s of
              Inl f \<Rightarrow> Inl f
            | Inr s1 \<Rightarrow>
                (case updateCurrentSession_l env s1 of
                   Inl f \<Rightarrow> Inl f
                 | Inr s2 \<Rightarrow>
                     (case validated s2 of Inl f \<Rightarrow> Inl f | Inr s3 \<Rightarrow> Inr (True, s3)))))"

definition getSession :: "ClientIdType \<Rightarrow> SessionIdType \<Rightarrow> Controller
    \<Rightarrow> TranscodingRequestParcel option" where
  "getSession clientId sessionId s =
     (case findSession (mSessionMap s) (clientId, sessionId) of
        None \<Rightarrow> None
      | Some session \<Rightarrow> Some (request session))"

text \<open>
  \<open>notifyClient\<close> runs \<open>func\<close> on the session key unless the session is unknown or was
  never started.
\<close>

definition notifyClient :: "ClientIdType \<Rightarrow> SessionIdType
    \<Rightarrow> (SessionKeyType \<Rightarrow> Session \<Rightarrow> Controller \<Rightarrow> Fault + Controller)
    \<Rightarrow> Controller \<Rightarrow> Fault + Controller" where
  "notifyClient clientId sessionId func s =
     (case findSession (mSessionMap s) (clientId, sessionId) of
        None \<Rightarrow> Inr s
      | Some session \<Rightarrow>
          if state session = NOT_STARTED then Inr s
          else func (clientId, sessionId) session s)"

text \<open>Calls the client's callback when \<open>callback.lock()\<close> is not null.\<close>

definition callClient :: "Env \<Rightarrow> Session \<Rightarrow> (Callback \<Rightarrow> Event) \<Rightarrow> Controller \<Rightarrow> Controller" where
  "callClient env session ev s =
     (case lock env (callback session) of None \<Rightarrow> s | Some cb \<Rightarrow> emit (ev cb) s)"

definition onStarted :: "Env \<Rightarrow> ClientIdType \<Rightarrow> SessionIdType \<Rightarrow> Controller \<Rightarrow> Fault + Controller" where
  "onStarted env clientId sessionId =
     notifyClient clientId sessionId
       (\<lambda>sessionKey session s. Inr (callClient env session (\<lambda>cb. OnTranscodingStarted cb sessionId) s))"

definition onPaused :: "Env \<Rightarrow> ClientIdType \<Rightarrow> SessionIdType \<Rightarrow> Controller \<Rightarrow> Fault + Controller" where
  "onPaused env clientId sessionId =
     notifyClient clientId sessionId
       (\<lambda>sessionKey session s. Inr (callClient env session (\<lambda>cb. OnTranscodingPaused cb sessionId) s))"

definition onResumed :: "Env \<Rightarrow> ClientIdType \<Rightarrow> SessionIdType \<Rightarrow> Controller \<Rightarrow> Fault + Controller" where
  "onResumed env clientId sessionId =
     notifyClient clientId sessionId
       (\<lambda>sessionKey session s. Inr (callClient env session (\<lambda>cb. OnTranscodingResumed cb sessionId) s))"

text \<open>The common tail of \<open>onFinish\<close> and \<open>onError\<close>.\<close>

definition removeAndUpdate :: "Env \<Rightarrow> SessionKeyType \<Rightarrow> Controller \<Rightarrow> Fault + Controller" where
  "removeAndUpdate env sessionKey s =
     (case removeSession_l env sessionKey s of
        Inl f \<Rightarrow> Inl f
      | Inr s1 \<Rightarrow>
          (case updateCurrentSession_l env s1 of
             Inl f \<Rightarrow> Inl f
           | Inr s2 \<Rightarrow> validated s2))"

definition onFinish :: "Env \<Rightarrow> ClientIdType \<Rightarrow> SessionIdType \<Rightarrow> Controller \<Rightarrow> Fault + Controller" where
  "onFinish env clientId sessionId =
     notifyClient clientId sessionId
       (\<lambda>sessionKey session s.
          removeAndUpdate env sessionKey
            (callClient env session (\<lambda>cb. OnTranscodingFinished cb sessionId) s))"

definition onError :: "Env \<Rightarrow> ClientIdType \<Rightarrow> SessionIdType \<Rightarrow> int \<Rightarrow> Controller
    \<Rightarrow> Fault + Controller" where
  "onError env clientId sessionId err =
     notifyClient clientId sessionId
       (\<lambda>sessionKey session s.
          removeAndUpdate env sessionKey
            (callClient env session (\<lambda>cb. OnTranscodingFailed cb sessionId err) s))"

definition onProgressUpdate :: "Env \<Rightarrow> ClientIdType \<Rightarrow> SessionIdType \<Rightarrow> int \<Rightarrow> Controller
    \<Rightarrow> Fault + Controller" where
  "onProgressUpdate env clientId sessionId progress =
     notifyClient clientId sessionId
       (\<lambda>sessionKey session s.
          Inr ((callClient env session (\<lambda>cb. OnProgressUpdate cb sessionId progress) s)
                 \<lparr>mSessionMap := modifySession sessionKey (\<lambda>x. x\<lparr>lastProgress := progress\<rparr>)
                    (mSessionMap s)\<rparr>))"

definition onResourceLost :: "Env \<Rightarrow> Controller \<Rightarrow> Fault + Controller" where
  "onResourceLost env s =
     (if mResourceLost s then Inr s
      else case (case mCurrentSession s of
                   None \<Rightarrow> Inr s
                 | Some cur \<Rightarrow>
                     (case findSession (mSessionMap s) cur of
                        None \<Rightarrow> Inl DanglingSession
                      | Some curSession \<Rightarrow>
                          if state curSession = RUNNING
                          then Inr (callClient env curSession
                                      (\<lambda>cb. OnTranscodingPaused cb (snd (key curSession)))
                                      (setState cur PAUSED s))
                          else Inr s)) of
             Inl f \<Rightarrow> Inl f
           | Inr s1 \<Rightarrow> validated (s1\<lparr>mResourceLost := True\<rparr>))"

definition onTopUidsChanged :: "Env \<Rightarrow> uid_t set \<Rightarrow> Controller \<Rightarrow> Fault + Controller" where
  "onTopUidsChanged env uids s =
     (if uids = {} then Inr s
      else case moveUidsToTop_l uids True s of
        Inl f \<Rightarrow> Inl f
      | Inr s1 \<Rightarrow>
          (case updateCurrentSession_l env s1 of
             Inl f \<Rightarrow> Inl f
           | Inr s2 \<Rightarrow> validated s2))"

definition onResourceAvailable :: "Env \<Rightarrow> Controller \<Rightarrow> Fault + Controller" where
  "onResourceAvailable env s =
     (if \<not> mResourceLost s then Inr s
      else case updateCurrentSession_l env (s\<lparr>mResourceLost := False\<rparr>) of
        Inl f \<Rightarrow> Inl f
      | Inr s1 \<Rightarrow> validated s1)"

section \<open>VideoTrackTranscoder: data model\<close>

text \<open>
  The transcoder's state: its flags and status, the message queue, the formats, and what
  it has handed to its collaborators so far (the calls on the codecs, the samples and the
  format notification given to the sink). A message of the queue is a closure in the C++;
  here it is a value, run by \<open>execute\<close>.
\<close>

datatype media_status_t =
    AMEDIA_OK
  | AMEDIA_ERROR_UNKNOWN
  | AMEDIA_ERROR_UNSUPPORTED
  | AMEDIA_ERROR_INVALID_PARAMETER
  | AMEDIA_ERROR_END_OF_STREAM
  | AMEDIA_ERROR_OTHER int

text \<open>An \<open>AMediaCodec*\<close>, by identity.\<close>
type_synonym Codec = nat

datatype FormatValue = Int32 int | Int64 int | StringValue string | BufferValue "nat list"

type_synonym AMediaFormat = "string \<rightharpoonup> FormatValue"

definition AMEDIAFORMAT_KEY_SAR_WIDTH :: string where
  "AMEDIAFORMAT_KEY_SAR_WIDTH = ''sar-width''"
definition AMEDIAFORMAT_KEY_SAR_HEIGHT :: string where
  "AMEDIAFORMAT_KEY_SAR_HEIGHT = ''sar-height''"
definition AMEDIAFORMAT_KEY_DISPLAY_WIDTH :: string where
  "AMEDIAFORMAT_KEY_DISPLAY_WIDTH = ''display-width''"
definition AMEDIAFORMAT_KEY_DISPLAY_HEIGHT :: string where
  "AMEDIAFORMAT_KEY_DISPLAY_HEIGHT = ''display-height''"
definition AMEDIAFORMAT_KEY_ROTATION :: string where
  "AMEDIAFORMAT_KEY_ROTATION = ''rotation-degrees''"
definition AMEDIAFORMAT_KEY_DURATION :: string where
  "AMEDIAFORMAT_KEY_DURATION = ''durationUs''"

definition AMediaFormat_getInt32 :: "AMediaFormat \<Rightarrow> string \<Rightarrow> int option" where
  "AMediaFormat_getInt32 f k = (case f k of Some (Int32 v) \<Rightarrow> Some v | _ \<Rightarrow> None)"

definition AMediaFormat_getInt64 :: "AMediaFormat \<Rightarrow> string \<Rightarrow> int option" where
  "AMediaFormat_getInt64 f k = (case f k of Some (Int64 v) \<Rightarrow> Some v | _ \<Rightarrow> None)"

definition AMediaFormat_setInt32 :: "string \<Rightarrow> int \<Rightarrow> AMediaFormat \<Rightarrow> AMediaFormat" where
  "AMediaFormat_setInt32 k v f = f(k \<mapsto> Int32 v)"

definition AMediaFormat_setInt64 :: "string \<Rightarrow> int \<Rightarrow> AMediaFormat \<Rightarrow> AMediaFormat" where
  "AMediaFormat_setInt64 k v f = f(k \<mapsto> Int64 v)"

definition AMEDIACODEC_BUFFER_FLAG_END_OF_STREAM :: "32 word" where
  "AMEDIACODEC_BUFFER_FLAG_END_OF_STREAM = 4"

definition AMEDIACODEC_INFO_OUTPUT_FORMAT_CHANGED :: int where
  "AMEDIACODEC_INFO_OUTPUT_FORMAT_CHANGED = - 2"

record AMediaCodecBufferInfo =
  offset :: int
  size :: int
  presentationTimeUs :: int
  flags :: "32 word"

record MediaSampleInfo =
  sampleFlags :: "32 word"
  samplePresentationTimeUs :: int
  sampleSize :: nat

text \<open>A \<open>MediaSample\<close> made by \<open>createWithReleaseCallback\<close>: the buffer it points into,
  its data offset and info, and the codec its release callback gives the buffer back to.\<close>

record MediaSample =
  bufferId :: int
  dataOffset :: int
  info :: AMediaCodecBufferInfo
  releasedTo :: Codec

datatype CodecCall =
    AMediaCodec_start Codec
  | AMediaCodec_stop Codec
  | AMediaCodec_queueInputBuffer Codec int nat int "32 word"
  | AMediaCodec_releaseOutputBuffer Codec int bool
  | AMediaCodec_signalEndOfInputStream Codec

datatype SinkEvent = SampleAvailable MediaSample | TrackFormatAvailable

datatype Message =
    StartDecoder
  | StartEncoder
  | EnqueueInputSample int
  | OutputAvailable Codec int AMediaCodecBufferInfo
  | UpdateTrackFormat AMediaFormat
  | CodecError media_status_t
  | StopRequest

record BlockingQueue =
  mQueue :: "Message list"
  mAborted :: bool

record Transcoder =
  mDecoder :: Codec
  mEncoder :: Codec
  mCodecStarted :: bool
  mEosFromSource :: bool
  mEosFromEncoder :: bool
  mStopRequested :: bool
  mStatus :: media_status_t
  mSampleInfo :: MediaSampleInfo
  mCodecMessageQueue :: BlockingQueue
  mSourceFormat :: AMediaFormat
  mActualOutputFormat :: "AMediaFormat option"
  codecCalls :: "CodecCall list"
  sinkEvents :: "SinkEvent list"

text \<open>
  What the codecs and the sample reader answer while one message runs: the status of
  \<open>AMediaCodec_start\<close>, the status and the sample info of \<open>getSampleInfoForTrack\<close>
  (which may write the info it is given), the capacity of the decoder's input buffer or
  null, the statuses of \<open>readSampleDataForTrack\<close>, \<open>AMediaCodec_queueInputBuffer\<close> and
  \<open>AMediaCodec_signalEndOfInputStream\<close>, and whether \<open>AMediaFormat_new\<close> and
  \<open>AMediaFormat_copy\<close> succeed.
\<close>

record World =
  codecStart :: "Codec \<Rightarrow> media_status_t"
  getSampleInfoForTrack :: "MediaSampleInfo \<Rightarrow> media_status_t \<times> MediaSampleInfo"
  getInputBuffer :: "int \<Rightarrow> nat option"
  readSampleDataForTrack :: media_status_t
  queueInputBuffer :: media_status_t
  signalEndOfInputStream :: media_status_t
  formatCopySucceeds :: bool

section \<open>VideoTrackTranscoder: operations\<close>

subsection \<open>BlockingQueue\<close>

definition push :: "Message \<Rightarrow> bool \<Rightarrow> BlockingQueue \<Rightarrow> BlockingQueue" where
  "push v front q =
     (if mAborted q then q
      else if front then q\<lparr>mQueue := v # mQueue q\<rparr>
      else q\<lparr>mQueue := mQueue q @ [v]\<rparr>)"

text \<open>\<open>pop\<close> waits while the queue is empty: \<open>None\<close> is a caller that is still waiting.\<close>

definition pop :: "BlockingQueue \<Rightarrow> (Message \<times> BlockingQueue) option" where
  "pop q = (case mQueue q of [] \<Rightarrow> None | v # vs \<Rightarrow> Some (v, q\<lparr>mQueue := vs\<rparr>))"

definition abort :: "BlockingQueue \<Rightarrow> BlockingQueue" where
  "abort q = q\<lparr>mAborted := True, mQueue := []\<rparr>"

definition pushMessage :: "Message \<Rightarrow> bool \<Rightarrow> Transcoder \<Rightarrow> Transcoder" where
  "pushMessage v front t = t\<lparr>mCodecMessageQueue := push v front (mCodecMessageQueue t)\<rparr>"

subsection \<open>The codec callbacks\<close>

text \<open>
  Each callback first upgrades the wrapper's weak pointer to the transcoder
  (\<open>wrapper->getTranscoder()\<close>); \<open>alive\<close> is whether that succeeds.
\<close>

definition onAsyncInputAvailable :: "bool \<Rightarrow> Codec \<Rightarrow> int \<Rightarrow> Transcoder \<Rightarrow> Transcoder" where
  "onAsyncInputAvailable alive codec index t =
     (if alive \<and> codec = mDecoder t then pushMessage (EnqueueInputSample index) False t else t)"

definition onAsyncOutputAvailable :: "bool \<Rightarrow> Codec \<Rightarrow> int \<Rightarrow> AMediaCodecBufferInfo
    \<Rightarrow> Transcoder \<Rightarrow> Transcoder" where
  "onAsyncOutputAvailable alive codec index bufferInfo t =
     (if alive then pushMessage (OutputAvailable codec index bufferInfo) False t else t)"

definition onAsyncFormatChanged :: "bool \<Rightarrow> Codec \<Rightarrow> AMediaFormat \<Rightarrow> Transcoder \<Rightarrow> Transcoder" where
  "onAsyncFormatChanged alive codec format t =
     (if alive \<and> codec = mEncoder t then pushMessage (UpdateTrackFormat format) False t else t)"

definition onAsyncError :: "bool \<Rightarrow> Codec \<Rightarrow> media_status_t \<Rightarrow> Transcoder \<Rightarrow> Transcoder" where
  "onAsyncError alive codec error t =
     (if alive then pushMessage (CodecError error) True t else t)"

definition abortTranscodeLoop :: "Transcoder \<Rightarrow> Transcoder" where
  "abortTranscodeLoop t = pushMessage StopRequest True t"

subsection \<open>The handlers\<close>

definition codecCall :: "CodecCall \<Rightarrow> Transcoder \<Rightarrow> Transcoder" where
  "codecCall c t = t\<lparr>codecCalls := codecCalls t @ [c]\<rparr>"

text \<open>Modelled from the spec: \<open>onOutputSampleAvailable\<close> of the base class
  \<open>MediaTrackTranscoder\<close>, which is not among the sources; it delivers the sample to the
  sink.\<close>

definition onOutputSampleAvailable :: "MediaSample \<Rightarrow> Transcoder \<Rightarrow> Transcoder" where
  "onOutputSampleAvailable sample t = t\<lparr>sinkEvents := sinkEvents t @ [SampleAvailable sample]\<rparr>"

text \<open>Modelled from the spec: \<open>notifyTrackFormatAvailable\<close> of the base class
  \<open>MediaTrackTranscoder\<close>, which is not among the sources; it notifies the sink that a
  format is now available.\<close>

definition notifyTrackFormatAvailable :: "Transcoder \<Rightarrow> Transcoder" where
  "notifyTrackFormatAvailable t = t\<lparr>sinkEvents := sinkEvents t @ [TrackFormatAvailable]\<rparr>"

text \<open>The end of \<open>enqueueInputSample\<close>: queue the input buffer for decoding.\<close>

definition queueForDecode :: "World \<Rightarrow> int \<Rightarrow> Transcoder \<Rightarrow> Transcoder" where
  "queueForDecode w bufferIndex t =
     (let t1 = codecCall (AMediaCodec_queueInputBuffer (mDecoder t) bufferIndex
                  (sampleSize (mSampleInfo t)) (samplePresentationTimeUs (mSampleInfo t))
                  (sampleFlags (mSampleInfo t))) t
      in if queueInputBuffer w \<noteq> AMEDIA_OK then t1\<lparr>mStatus := queueInputBuffer w\<rparr> else t1)"

definition enqueueInputSample :: "World \<Rightarrow> int \<Rightarrow> Transcoder \<Rightarrow> Transcoder" where
  "enqueueInputSample w bufferIndex t =
     (if mEosFromSource t then t
      else case getSampleInfoForTrack w (mSampleInfo t) of
        (status, sampleInfo) \<Rightarrow>
          (let t1 = t\<lparr>mSampleInfo := sampleInfo\<rparr>
           in if status \<noteq> AMEDIA_OK \<and> status \<noteq> AMEDIA_ERROR_END_OF_STREAM
              then t1\<lparr>mStatus := status\<rparr>
              else if status \<noteq> AMEDIA_ERROR_END_OF_STREAM then
                (case getInputBuffer w bufferIndex of
                   None \<Rightarrow> t1\<lparr>mStatus := AMEDIA_ERROR_UNKNOWN\<rparr>
                 | Some bufferSize \<Rightarrow>
                     if bufferSize < sampleSize sampleInfo
                     then t1\<lparr>mStatus := AMEDIA_ERROR_UNKNOWN\<rparr>
                     else if readSampleDataForTrack w \<noteq> AMEDIA_OK
                     then t1\<lparr>mStatus := readSampleDataForTrack w\<rparr>
                     else queueForDecode w bufferIndex t1)
              else queueForDecode w bufferIndex (t1\<lparr>mEosFromSource := True\<rparr>)))"

definition transferBuffer :: "World \<Rightarrow> int \<Rightarrow> AMediaCodecBufferInfo \<Rightarrow> Transcoder \<Rightarrow> Transcoder" where
  "transferBuffer w bufferIndex bufferInfo t =
     (let t1 = (if bufferIndex \<ge> 0
                then codecCall (AMediaCodec_releaseOutputBuffer (mDecoder t) bufferIndex
                       (size bufferInfo > 0)) t
                else t)
      in if and (flags bufferInfo) AMEDIACODEC_BUFFER_FLAG_END_OF_STREAM \<noteq> 0
         then (let t2 = codecCall (AMediaCodec_signalEndOfInputStream (mEncoder t1)) t1
               in if signalEndOfInputStream w \<noteq> AMEDIA_OK
                  then t2\<lparr>mStatus := signalEndOfInputStream w\<rparr> else t2)
         else t1)"

text \<open>For the index \<open>AMEDIACODEC_INFO_OUTPUT_FORMAT_CHANGED\<close> the handler only logs the
  encoder's output format.\<close>

definition dequeueOutputSample :: "int \<Rightarrow> AMediaCodecBufferInfo \<Rightarrow> Transcoder \<Rightarrow> Transcoder" where
  "dequeueOutputSample bufferIndex bufferInfo t =
     (let t1 = (if bufferIndex \<ge> 0
                then onOutputSampleAvailable
                       \<lparr>bufferId = bufferIndex, dataOffset = offset bufferInfo,
                        info = bufferInfo, releasedTo = mEncoder t\<rparr> t
                else if bufferIndex = AMEDIACODEC_INFO_OUTPUT_FORMAT_CHANGED then t
                else t)
      in if and (flags bufferInfo) AMEDIACODEC_BUFFER_FLAG_END_OF_STREAM \<noteq> 0
         then t1\<lparr>mEosFromEncoder := True\<rparr>
         else t1)"

text \<open>The four transfers of \<open>updateTrackFormat\<close> from the source format to the copy of
  the encoder's output format.\<close>

definition transferSar :: "AMediaFormat \<Rightarrow> AMediaFormat \<Rightarrow> AMediaFormat" where
  "transferSar source formatCopy =
     (case AMediaFormat_getInt32 source AMEDIAFORMAT_KEY_SAR_WIDTH of
        None \<Rightarrow> formatCopy
      | Some sarWidth \<Rightarrow>
          if sarWidth > 0 then
            (case AMediaFormat_getInt32 source AMEDIAFORMAT_KEY_SAR_HEIGHT of
               None \<Rightarrow> formatCopy
             | Some sarHeight \<Rightarrow>
                 if sarHeight > 0
                 then AMediaFormat_setInt32 AMEDIAFORMAT_KEY_SAR_HEIGHT sarHeight
                        (AMediaFormat_setInt32 AMEDIAFORMAT_KEY_SAR_WIDTH sarWidth formatCopy)
                 else formatCopy)
          else formatCopy)"

definition transferDar :: "AMediaFormat \<Rightarrow> AMediaFormat \<Rightarrow> AMediaFormat" where
  "transferDar source formatCopy =
     (case AMediaFormat_getInt32 source AMEDIAFORMAT_KEY_DISPLAY_WIDTH of
        None \<Rightarrow> formatCopy
      | Some displayWidth \<Rightarrow>
          if displayWidth > 0 then
            (case AMediaFormat_getInt32 source AMEDIAFORMAT_KEY_DISPLAY_HEIGHT of
               None \<Rightarrow> formatCopy
             | Some displayHeight \<Rightarrow>
                 if displayHeight > 0
                 then AMediaFormat_setInt32 AMEDIAFORMAT_KEY_DISPLAY_HEIGHT displayHeight
                        (AMediaFormat_setInt32 AMEDIAFORMAT_KEY_DISPLAY_WIDTH displayWidth formatCopy)
                 else formatCopy)
          else formatCopy)"

definition transferRotation :: "AMediaFormat \<Rightarrow> AMediaFormat \<Rightarrow> AMediaFormat" where
  "transferRotation source formatCopy =
     (case AMediaFormat_getInt32 source AMEDIAFORMAT_KEY_ROTATION of
        None \<Rightarrow> formatCopy
      | Some rotation \<Rightarrow>
          if rotation \<noteq> 0 then AMediaFormat_setInt32 AMEDIAFORMAT_KEY_ROTATION rotation formatCopy
          else formatCopy)"

definition transferDuration :: "AMediaFormat \<Rightarrow> AMediaFormat \<Rightarrow> AMediaFormat" where
  "transferDuration source formatCopy =
     (case AMediaFormat_getInt64 source AMEDIAFORMAT_KEY_DURATION of
        None \<Rightarrow> formatCopy
      | Some durationUs \<Rightarrow>
          if durationUs > 0 then AMediaFormat_setInt64 AMEDIAFORMAT_KEY_DURATION durationUs formatCopy
          else formatCopy)"

definition updateTrackFormat :: "World \<Rightarrow> AMediaFormat \<Rightarrow> Transcoder \<Rightarrow> Transcoder" where
  "updateTrackFormat w outputFormat t =
     (if mActualOutputFormat t \<noteq> None then t
      else if \<not> formatCopySucceeds w then t\<lparr>mStatus := AMEDIA_ERROR_INVALID_PARAMETER\<rparr>
      else notifyTrackFormatAvailable
             (t\<lparr>mActualOutputFormat := Some
                  (transferDuration (mSourceFormat t)
                    (transferRotation (mSourceFormat t)
                      (transferDar (mSourceFormat t)
                        (transferSar (mSourceFormat t) outputFormat))))\<rparr>))"

subsection \<open>The run loop\<close>

text \<open>Running a message of the queue. The two start messages are the closures
  \<open>runTranscodeLoop\<close> pushes; \<open>CodecError\<close> is the closure of \<open>onAsyncError\<close>,
  \<open>StopRequest\<close> that of \<open>abortTranscodeLoop\<close>.\<close>

definition execute :: "World \<Rightarrow> Message \<Rightarrow> Transcoder \<Rightarrow> Transcoder" where
  "execute w m t =
     (case m of
        StartDecoder \<Rightarrow>
          (let t1 = codecCall (AMediaCodec_start (mDecoder t)) t
           in if codecStart w (mDecoder t) \<noteq> AMEDIA_OK
              then t1\<lparr>mStatus := codecStart w (mDecoder t)\<rparr> else t1)
      | StartEncoder \<Rightarrow>
          (let t1 = codecCall (AMediaCodec_start (mEncoder t)) t;
               t2 = (if codecStart w (mEncoder t) \<noteq> AMEDIA_OK
                     then t1\<lparr>mStatus := codecStart w (mEncoder t)\<rparr> else t1)
           in t2\<lparr>mCodecStarted := True\<rparr>)
      | EnqueueInputSample index \<Rightarrow> enqueueInputSample w index t
      | OutputAvailable codec index bufferInfo \<Rightarrow>
          if codec = mDecoder t then transferBuffer w index bufferInfo t
          else if codec = mEncoder t then dequeueOutputSample index bufferInfo t
          else t
      | UpdateTrackFormat format \<Rightarrow> updateTrackFormat w format t
      | CodecError error \<Rightarrow> t\<lparr>mStatus := error, mStopRequested := True\<rparr>
      | StopRequest \<Rightarrow> t\<lparr>mStopRequested := True\<rparr>)"

text \<open>
  What happens around the run thread while it is in the loop: a codec thread delivers a
  callback, some thread calls \<open>abortTranscodeLoop\<close>, or the run thread makes one pass
  through the loop, \<open>Run w\<close>, during which the collaborators answer \<open>w\<close>.
\<close>

datatype Action =
    InputAvailable bool Codec int
  | OutputAvailableCallback bool Codec int AMediaCodecBufferInfo
  | FormatChanged bool Codec AMediaFormat
  | AsyncError bool Codec media_status_t
  | Abort
  | Run World

definition deliver :: "Action \<Rightarrow> Transcoder \<Rightarrow> Transcoder" where
  "deliver a t =
     (case a of
        InputAvailable alive codec index \<Rightarrow> onAsyncInputAvailable alive codec index t
      | OutputAvailableCallback alive codec index bufferInfo \<Rightarrow>
          onAsyncOutputAvailable alive codec index bufferInfo t
      | FormatChanged alive codec format \<Rightarrow> onAsyncFormatChanged alive codec format t
      | AsyncError alive codec error \<Rightarrow> onAsyncError alive codec error t
      | Abort \<Rightarrow> abortTranscodeLoop t
      | Run w \<Rightarrow> t)"

text \<open>The condition of the \<open>while\<close> loop.\<close>

definition loopCondition :: "Transcoder \<Rightarrow> bool" where
  "loopCondition t \<longleftrightarrow> \<not> mStopRequested t \<and> \<not> mEosFromEncoder t \<and> mStatus t = AMEDIA_OK"

text \<open>
  The \<open>while\<close> loop of \<open>runTranscodeLoop\<close> under a schedule of actions. At \<open>Run w\<close> the
  run thread tests the condition and leaves the loop, or pops a message and runs it; on an
  empty queue it stays in \<open>pop\<close>. The loop has \<open>Exited\<close> in the state it left with, or
  the schedule ends with the thread still in the loop, \<open>Waiting\<close>.
\<close>

datatype LoopOutcome = Exited Transcoder | Waiting Transcoder

fun codecMessageLoop :: "Action list \<Rightarrow> Transcoder \<Rightarrow> LoopOutcome" where
  "codecMessageLoop [] t = Waiting t"
| "codecMessageLoop (Run w # rest) t =
     (if loopCondition t then
        (case pop (mCodecMessageQueue t) of
           None \<Rightarrow> codecMessageLoop rest t
         | Some (message, q) \<Rightarrow>
             codecMessageLoop rest (execute w message (t\<lparr>mCodecMessageQueue := q\<rparr>)))
      else Exited t)"
| "codecMessageLoop (a # rest) t = codecMessageLoop rest (deliver a t)"

text \<open>After the loop: abort the queue, stop the decoder, and turn a stop request that
  came before the encoder's end of stream, with no error recorded, into an error.\<close>

definition finishLoop :: "Transcoder \<Rightarrow> media_status_t \<times> Transcoder" where
  "finishLoop t =
     (let t1 = codecCall (AMediaCodec_stop (mDecoder t))
                 (t\<lparr>mCodecMessageQueue := abort (mCodecMessageQueue t)\<rparr>);
          t2 = (if mStopRequested t1 \<and> \<not> mEosFromEncoder t1 \<and> mStatus t1 = AMEDIA_OK
                then t1\<lparr>mStatus := AMEDIA_ERROR_UNKNOWN\<rparr> else t1)
      in (mStatus t2, t2))"

text \<open>\<open>runTranscodeLoop\<close> returns \<open>None\<close> when the schedule ends with the thread still in
  the loop.\<close>

definition runTranscodeLoop :: "Action list \<Rightarrow> Transcoder \<Rightarrow> (media_status_t \<times> Transcoder) option" where
  "runTranscodeLoop schedule t =
     (case codecMessageLoop schedule
             (pushMessage StartEncoder False (pushMessage StartDecoder False t)) of
        Waiting _ \<Rightarrow> None
      | Exited t1 \<Rightarrow> Some (finishLoop t1))"

section \<open>Invariants, reachable states and example states\<close>

definition uidListOk :: "uid_t list \<Rightarrow> (uid_t \<times> SessionQueueType) list \<Rightarrow> bool" where
  "uidListOk l qs \<longleftrightarrow> distinct l \<and> set l = dom (map_of qs) \<and> l \<noteq> [] \<and> last l = OFFLINE_UID"

definition queuesOk :: "(SessionKeyType \<times> Session) list \<Rightarrow> (uid_t \<times> SessionQueueType) list \<Rightarrow> bool" where
  "queuesOk m qs \<longleftrightarrow> (\<forall>u q. map_of qs u = Some q \<longrightarrow>
     distinct q \<and> (u \<noteq> OFFLINE_UID \<longrightarrow> q \<noteq> [])
     \<and> (\<forall>k \<in> set q. \<exists>x. findSession m k = Some x \<and> uid x = u))"

definition sessionsOk :: "(SessionKeyType \<times> Session) list \<Rightarrow> (uid_t \<times> SessionQueueType) list \<Rightarrow> bool" where
  "sessionsOk m qs \<longleftrightarrow> (\<forall>k x. findSession m k = Some x \<longrightarrow>
     key x = k \<and> k \<in> set (queueAt qs (uid x)))"

definition structInv :: "(SessionKeyType \<times> Session) list \<Rightarrow> (uid_t \<times> SessionQueueType) list
    \<Rightarrow> uid_t list \<Rightarrow> bool" where
  "structInv m qs l \<longleftrightarrow> distinct (map fst m) \<and> distinct (map fst qs)
     \<and> uidListOk l qs \<and> queuesOk m qs \<and> sessionsOk m qs"

definition currentInv :: "(SessionKeyType \<times> Session) list \<Rightarrow> SessionKeyType option \<Rightarrow> bool \<Rightarrow> bool" where
  "currentInv m cur lost \<longleftrightarrow>
     (\<forall>k. cur = Some k \<longrightarrow> findSession m k \<noteq> None)
     \<and> (\<forall>k x. findSession m k = Some x \<and> state x = RUNNING \<longrightarrow> cur = Some k)
     \<and> (lost \<longrightarrow> (\<forall>k x. findSession m k = Some x \<longrightarrow> state x \<noteq> RUNNING))"

definition structOk :: "Controller \<Rightarrow> bool" where
  "structOk s \<longleftrightarrow> structInv (mSessionMap s) (mSessionQueues s) (mUidSortedList s)"

definition wellFormed :: "Controller \<Rightarrow> bool" where
  "wellFormed s \<longleftrightarrow> structOk s \<and> currentInv (mSessionMap s) (mCurrentSession s) (mResourceLost s)"

definition noRunning :: "Controller \<Rightarrow> bool" where
  "noRunning s \<longleftrightarrow> (\<forall>k x. findSession (mSessionMap s) k = Some x \<longrightarrow> state x \<noteq> RUNNING)"

text \<open>Two states that differ at most in the states of their sessions, the current-session
  pointer and the calls made so far.\<close>

definition sameSessions :: "Controller \<Rightarrow> Controller \<Rightarrow> bool" where
  "sameSessions s s' \<longleftrightarrow> mSessionQueues s' = mSessionQueues s
     \<and> mUidSortedList s' = mUidSortedList s \<and> mResourceLost s' = mResourceLost s
     \<and> map fst (mSessionMap s') = map fst (mSessionMap s)
     \<and> (\<forall>k. map_option (\<lambda>x. x\<lparr>state := NOT_STARTED\<rparr>) (findSession (mSessionMap s') k)
            = map_option (\<lambda>x. x\<lparr>state := NOT_STARTED\<rparr>) (findSession (mSessionMap s) k))"

definition newSession :: "SessionKeyType \<Rightarrow> uid_t \<Rightarrow> TranscodingRequestParcel \<Rightarrow> Callback \<Rightarrow> Session" where
  "newSession k u req cb = \<lparr>key = k, uid = u, state = NOT_STARTED, lastProgress = 0,
     request = req, callback = cb\<rparr>"

definition sessionUid :: "uid_t \<Rightarrow> TranscodingRequestParcel \<Rightarrow> uid_t" where
  "sessionUid callerUid req = (if priority req = kUnspecified then OFFLINE_UID else callerUid)"

definition schedInv :: "Controller \<Rightarrow> bool" where
  "schedInv s \<longleftrightarrow> wellFormed s \<and> getTopSession_l s = Inr (mCurrentSession s)"

definition quiet :: "Event \<Rightarrow> bool" where
  "quiet e \<longleftrightarrow> (\<exists>c i. e = TranscoderStop c i) \<or> (\<exists>u. e = UnregisterMonitorUid u)"

definition cancelKeys :: "ClientIdType \<Rightarrow> SessionIdType \<Rightarrow> Controller \<Rightarrow> SessionKeyType list" where
  "cancelKeys c i s = (if i < 0 then sessionsToRemove c s else [(c, i)])"

inductive reachable :: "Controller \<Rightarrow> bool" where
  init: "reachable initController"
| submit: "reachable s \<Longrightarrow> submit env c i callerUid req cb s = Inr (b, s') \<Longrightarrow> reachable s'"
| cancel: "reachable s \<Longrightarrow> cancel env c i s = Inr (b, s') \<Longrightarrow> reachable s'"
| onStarted: "reachable s \<Longrightarrow> onStarted env c i s = Inr s' \<Longrightarrow> reachable s'"
| onPaused: "reachable s \<Longrightarrow> onPaused env c i s = Inr s' \<Longrightarrow> reachable s'"
| onResumed: "reachable s \<Longrightarrow> onResumed env c i s = Inr s' \<Longrightarrow> reachable s'"
| onFinish: "reachable s \<Longrightarrow> onFinish env c i s = Inr s' \<Longrightarrow> reachable s'"
| onError: "reachable s \<Longrightarrow> onError env c i err s = Inr s' \<Longrightarrow> reachable s'"
| onProgressUpdate: "reachable s \<Longrightarrow> onProgressUpdate env c i p s = Inr s' \<Longrightarrow> reachable s'"
| onResourceLost: "reachable s \<Longrightarrow> onResourceLost env s = Inr s' \<Longrightarrow> reachable s'"
| onTopUidsChanged: "reachable s \<Longrightarrow> onTopUidsChanged env uids s = Inr s' \<Longrightarrow> reachable s'"
| onResourceAvailable: "reachable s \<Longrightarrow> onResourceAvailable env s = Inr s' \<Longrightarrow> reachable s'"

definition startEvent :: "Env \<Rightarrow> Session \<Rightarrow> Event" where
  "startEvent env x =
     (if state x = NOT_STARTED
      then TranscoderStart (fst (key x)) (snd (key x)) (request x) (lock env (callback x))
      else TranscoderResume (fst (key x)) (snd (key x)) (request x) (lock env (callback x)))"

definition exampleEnv :: Env where
  "exampleEnv = \<lparr>isUidOnTop = (\<lambda>u. u = 100), getTopUids = (\<lambda>k. {100}), lockCallback = (\<lambda>cb. True)\<rparr>"

definition exampleRequest :: TranscodingRequestParcel where
  "exampleRequest = \<lparr>sourceFilePath = ''in.mp4'', destinationFilePath = ''out.mp4'',
     priority = kNormal\<rparr>"

definition oneRunning :: Controller where
  "oneRunning = \<lparr>mSessionMap = [((1, 1), \<lparr>key = (1, 1), uid = 100, state = RUNNING,
        lastProgress = 0, request = exampleRequest, callback = 7\<rparr>)],
     mSessionQueues = [(OFFLINE_UID, []), (100, [(1, 1)])],
     mUidSortedList = [100, OFFLINE_UID], mCurrentSession = Some (1, 1),
     mResourceLost = False,
     effects = [RegisterMonitorUid 100, TranscoderStart 1 1 exampleRequest (Some 7)]\<rparr>"

definition lostIdle :: Controller where
  "lostIdle = initController\<lparr>mResourceLost := True\<rparr>"

definition lostSubmitted :: Controller where
  "lostSubmitted = \<lparr>mSessionMap = [((1, 1), \<lparr>key = (1, 1), uid = 100, state = NOT_STARTED,
        lastProgress = 0, request = exampleRequest, callback = 7\<rparr>)],
     mSessionQueues = [(OFFLINE_UID, []), (100, [(1, 1)])],
     mUidSortedList = [100, OFFLINE_UID], mCurrentSession = Some (1, 1),
     mResourceLost = True, effects = [RegisterMonitorUid 100]\<rparr>"

definition offlineRequest :: TranscodingRequestParcel where
  "offlineRequest = \<lparr>sourceFilePath = ''in.mp4'', destinationFilePath = ''out.mp4'',
     priority = kUnspecified\<rparr>"

text \<open>Client 1 with a running session of uid 100, a waiting session of uid 200 and an
  offline session.\<close>

definition threeSessions :: Controller where
  "threeSessions = \<lparr>mSessionMap =
       [((1, 1), \<lparr>key = (1, 1), uid = 100, state = RUNNING, lastProgress = 0,
                  request = exampleRequest, callback = 7\<rparr>),
        ((1, 2), \<lparr>key = (1, 2), uid = 200, state = NOT_STARTED, lastProgress = 0,
                  request = exampleRequest, callback = 7\<rparr>),
        ((1, 3), \<lparr>key = (1, 3), uid = OFFLINE_UID, state = NOT_STARTED, lastProgress = 0,
                  request = offlineRequest, callback = 7\<rparr>)],
     mSessionQueues = [(OFFLINE_UID, [(1, 3)]), (100, [(1, 1)]), (200, [(1, 2)])],
     mUidSortedList = [100, 200, OFFLINE_UID], mCurrentSession = Some (1, 1),
     mResourceLost = False,
     effects = [RegisterMonitorUid 100, TranscoderStart 1 1 exampleRequest (Some 7),
                RegisterMonitorUid 200]\<rparr>"

definition twoSessions :: Controller where
  "twoSessions = \<lparr>mSessionMap =
       [((1, 1), \<lparr>key = (1, 1), uid = 100, state = RUNNING, lastProgress = 0,
                  request = exampleRequest, callback = 7\<rparr>),
        ((1, 2), \<lparr>key = (1, 2), uid = 200, state = NOT_STARTED, lastProgress = 0,
                  request = exampleRequest, callback = 7\<rparr>)],
     mSessionQueues = [(OFFLINE_UID, []), (100, [(1, 1)]), (200, [(1, 2)])],
     mUidSortedList = [100, 200, OFFLINE_UID], mCurrentSession = Some (1, 1),
     mResourceLost = False,
     effects = [RegisterMonitorUid 100, TranscoderStart 1 1 exampleRequest (Some 7),
                RegisterMonitorUid 200]\<rparr>"

definition offlineLeft :: Controller where
  "offlineLeft = \<lparr>mSessionMap =
       [((1, 3), \<lparr>key = (1, 3), uid = OFFLINE_UID, state = RUNNING, lastProgress = 0,
                  request = offlineRequest, callback = 7\<rparr>)],
     mSessionQueues = [(OFFLINE_UID, [(1, 3)])],
     mUidSortedList = [OFFLINE_UID], mCurrentSession = Some (1, 3),
     mResourceLost = False,
     effects = [RegisterMonitorUid 100, TranscoderStart 1 1 exampleRequest (Some 7),
                RegisterMonitorUid 200, TranscoderStop 1 1, UnregisterMonitorUid 100,
                UnregisterMonitorUid 200, TranscoderStart 1 3 offlineRequest (Some 7)]\<rparr>"

text \<open>The state of the transcoder when the loop was left, or at the end of the schedule.\<close>

fun outcomeState :: "LoopOutcome \<Rightarrow> Transcoder" where
  "outcomeState (Exited t) = t"
| "outcomeState (Waiting t) = t"

text \<open>A message that only requests a stop: the closures of \<open>onAsyncError\<close> and of
  \<open>abortTranscodeLoop\<close>, the only ones pushed to the front of the queue.\<close>

definition stopper :: "Message \<Rightarrow> bool" where
  "stopper m = (case m of CodecError e \<Rightarrow> True | StopRequest \<Rightarrow> True | _ \<Rightarrow> False)"

definition stopperAtFront :: "Transcoder \<Rightarrow> bool" where
  "stopperAtFront t = (case mQueue (mCodecMessageQueue t) of [] \<Rightarrow> False | m # _ \<Rightarrow> stopper m)"

text \<open>The actual output format in the spec's words: a copy of the encoder's output format,
  overlaid with the source format's sample-aspect-ratio width and height when both are
  present and positive, its display width and height when both are present and positive,
  its rotation when present and not zero, and its duration when present and positive.\<close>

definition validPair :: "AMediaFormat \<Rightarrow> string \<Rightarrow> string \<Rightarrow> bool" where
  "validPair source kw kh =
     (case (source kw, source kh) of
        (Some (Int32 w), Some (Int32 h)) \<Rightarrow> w > 0 \<and> h > 0
      | _ \<Rightarrow> False)"

definition validRotation :: "AMediaFormat \<Rightarrow> bool" where
  "validRotation source =
     (case source AMEDIAFORMAT_KEY_ROTATION of Some (Int32 r) \<Rightarrow> r \<noteq> 0 | _ \<Rightarrow> False)"

definition validDuration :: "AMediaFormat \<Rightarrow> bool" where
  "validDuration source =
     (case source AMEDIAFORMAT_KEY_DURATION of Some (Int64 d) \<Rightarrow> d > 0 | _ \<Rightarrow> False)"

definition overlaySpec :: "AMediaFormat \<Rightarrow> AMediaFormat \<Rightarrow> AMediaFormat" where
  "overlaySpec source encoderFormat =
     (\<lambda>k. if (k = AMEDIAFORMAT_KEY_SAR_WIDTH \<or> k = AMEDIAFORMAT_KEY_SAR_HEIGHT)
               \<and> validPair source AMEDIAFORMAT_KEY_SAR_WIDTH AMEDIAFORMAT_KEY_SAR_HEIGHT
           then source k
           else if (k = AMEDIAFORMAT_KEY_DISPLAY_WIDTH \<or> k = AMEDIAFORMAT_KEY_DISPLAY_HEIGHT)
               \<and> validPair source AMEDIAFORMAT_KEY_DISPLAY_WIDTH AMEDIAFORMAT_KEY_DISPLAY_HEIGHT
           then source k
           else if k = AMEDIAFORMAT_KEY_ROTATION \<and> validRotation source then source k
           else if k = AMEDIAFORMAT_KEY_DURATION \<and> validDuration source then source k
           else encoderFormat k)"

definition transferredKeys :: "string set" where
  "transferredKeys = {AMEDIAFORMAT_KEY_SAR_WIDTH, AMEDIAFORMAT_KEY_SAR_HEIGHT,
     AMEDIAFORMAT_KEY_DISPLAY_WIDTH, AMEDIAFORMAT_KEY_DISPLAY_HEIGHT,
     AMEDIAFORMAT_KEY_ROTATION, AMEDIAFORMAT_KEY_DURATION}"

definition exampleWorld :: World where
  "exampleWorld = \<lparr>codecStart = (\<lambda>c. AMEDIA_OK),
     getSampleInfoForTrack = (\<lambda>i. (AMEDIA_OK, i)),
     getInputBuffer = (\<lambda>i. Some 4096),
     readSampleDataForTrack = AMEDIA_OK, queueInputBuffer = AMEDIA_OK,
     signalEndOfInputStream = AMEDIA_OK, formatCopySucceeds = True\<rparr>"

definition exampleSourceFormat :: AMediaFormat where
  "exampleSourceFormat = [''mime'' \<mapsto> StringValue ''video/hevc'',
     ''sar-width'' \<mapsto> Int32 4, ''sar-height'' \<mapsto> Int32 3,
     ''display-width'' \<mapsto> Int32 0, ''display-height'' \<mapsto> Int32 1080,
     ''rotation-degrees'' \<mapsto> Int32 90, ''durationUs'' \<mapsto> Int64 5000000]"

definition exampleEncoderFormat :: AMediaFormat where
  "exampleEncoderFormat = [''mime'' \<mapsto> StringValue ''video/avc'',
     ''csd-0'' \<mapsto> BufferValue [0, 0, 0, 1], ''display-width'' \<mapsto> Int32 1920,
     ''rotation-degrees'' \<mapsto> Int32 0]"

definition exampleTranscoder :: Transcoder where
  "exampleTranscoder = \<lparr>mDecoder = 1, mEncoder = 2, mCodecStarted = False,
     mEosFromSource = False, mEosFromEncoder = False, mStopRequested = False,
     mStatus = AMEDIA_OK,
     mSampleInfo = \<lparr>sampleFlags = 0, samplePresentationTimeUs = 0, sampleSize = 0\<rparr>,
     mCodecMessageQueue = \<lparr>mQueue = [], mAborted = False\<rparr>,
     mSourceFormat = exampleSourceFormat, mActualOutputFormat = None,
     codecCalls = [], sinkEvents = []\<rparr>"

definition eosInfo :: AMediaCodecBufferInfo where
  "eosInfo = \<lparr>offset = 0, size = 0, presentationTimeUs = 0, flags = 4\<rparr>"

definition frameInfo :: AMediaCodecBufferInfo where
  "frameInfo = \<lparr>offset = 0, size = 100, presentationTimeUs = 33000, flags = 0\<rparr>"

text \<open>A run to the encoder's end of stream: the two codecs start, the encoder delivers a
  buffer with the end-of-stream flag, the loop runs it and leaves.\<close>

definition cleanRun :: "Action list" where
  "cleanRun = [Run exampleWorld, Run exampleWorld, OutputAvailableCallback True 2 0 eosInfo,
     Run exampleWorld, Run exampleWorld]"

definition busyTranscoder :: Transcoder where
  "busyTranscoder = exampleTranscoder\<lparr>mCodecMessageQueue :=
     \<lparr>mQueue = [EnqueueInputSample 0, OutputAvailable 2 1 frameInfo], mAborted = False\<rparr>\<rparr>"

text \<open>A world in which the copy of a format fails, a second format the encoder reports
  later, and two format-changed callbacks followed by three passes of the loop.\<close>

definition failingWorld :: World where
  "failingWorld = exampleWorld\<lparr>formatCopySucceeds := False\<rparr>"

definition lateFormat :: AMediaFormat where
  "lateFormat = [''mime'' \<mapsto> StringValue ''video/avc'', ''display-width'' \<mapsto> Int32 1280,
     ''rotation-degrees'' \<mapsto> Int32 180]"

definition formatEvents :: "Action list" where
  "formatEvents = [FormatChanged True 2 exampleEncoderFormat, FormatChanged True 2 lateFormat,
     Run exampleWorld, Run failingWorld, Run exampleWorld]"

definition firstFormatPublished :: Transcoder where
  "firstFormatPublished = exampleTranscoder
     \<lparr>mActualOutputFormat := Some (overlaySpec exampleSourceFormat exampleEncoderFormat),
      sinkEvents := [TrackFormatAvailable]\<rparr>"

section \<open>Proofs\<close>

declare split_paired_All [simp del] split_paired_Ex [simp del]

subsection \<open>The registry and the queues as maps\<close>

lemma findSession_insertSession [simp]:
  "findSession (insertSession k v m) k' = (if k' = k then Some v else findSession m k')"
  by (induction m) (auto simp: findSession_def)

lemma findSession_eraseSession [simp]:
  "findSession (eraseSession k m) k' = (if k' = k then None else findSession m k')"
  by (induction m) (auto simp: findSession_def eraseSession_def)

lemma findSession_modifySession [simp]:
  "findSession (modifySession k f m) k' =
     (if k' = k then map_option f (findSession m k) else findSession m k')"
  by (induction m) (auto simp: findSession_def modifySession_def)

lemma findSession_None_iff: "findSession m k = None \<longleftrightarrow> k \<notin> fst ` set m"
  by (simp add: findSession_def map_of_eq_None_iff)

lemma keys_insertSession: "fst ` set (insertSession k v m) = insert k (fst ` set m)"
proof -
  have "dom (findSession (insertSession k v m)) = insert k (dom (findSession m))"
    by (auto simp: dom_def)
  then show ?thesis
    by (simp add: findSession_def [abs_def] dom_map_of_conv_image_fst)
qed

lemma distinct_insertSession:
  "distinct (map fst m) \<Longrightarrow> findSession m k = None \<Longrightarrow> distinct (map fst (insertSession k v m))"
  by (induction m) (auto simp: findSession_None_iff keys_insertSession)

lemma map_fst_modifySession [simp]: "map fst (modifySession k f m) = map fst m"
  by (induction m) (auto simp: modifySession_def)

lemma distinct_eraseSession:
  "distinct (map fst m) \<Longrightarrow> distinct (map fst (eraseSession k m))"
  by (simp add: eraseSession_def distinct_map_filter)

lemma sessionMap_empty_iff: "m = [] \<longleftrightarrow> (\<forall>k. findSession m k = None)"
  by (cases m) (auto simp: findSession_def split: if_splits)

lemma modifySession_empty_iff [simp]: "modifySession k f m = [] \<longleftrightarrow> m = []"
  by (simp add: modifySession_def)

lemma queueAt_update [simp]:
  "queueAt (AList.update u q qs) u' = (if u' = u then q else queueAt qs u')"
  by (simp add: queueAt_def update_conv')

lemma queueAt_delete [simp]:
  "queueAt (AList.delete u qs) u' = (if u' = u then [] else queueAt qs u')"
  by (simp add: queueAt_def delete_conv')

lemma in_queueAtD: "k \<in> set (queueAt qs u) \<Longrightarrow> \<exists>q. map_of qs u = Some q \<and> k \<in> set q"
  by (cases "map_of qs u") (auto simp: queueAt_def)

lemma queueAt_Some: "map_of qs u = Some q \<Longrightarrow> queueAt qs u = q"
  by (simp add: queueAt_def)

lemma queueAt_nonempty_dom: "queueAt qs u \<noteq> [] \<Longrightarrow> u \<in> dom (map_of qs)"
  by (auto simp: queueAt_def split: option.splits)

lemma distinct_hd_last: "distinct l \<Longrightarrow> l \<noteq> [] \<Longrightarrow> hd l = last l \<Longrightarrow> l = [hd l]"
  by (cases l) (auto split: if_splits)

lemma length_eq_card_keys: "distinct (map fst m) \<Longrightarrow> length m = card (fst ` set m)"
  by (metis distinct_card length_map set_map)

subsection \<open>Well-formed controller states\<close>

lemma queuesOk_distinct: "queuesOk m qs \<Longrightarrow> distinct (queueAt qs u)"
  by (cases "map_of qs u") (auto simp: queuesOk_def queueAt_def)

lemma queuesOk_find:
  "queuesOk m qs \<Longrightarrow> k \<in> set (queueAt qs u) \<Longrightarrow> \<exists>x. findSession m k = Some x \<and> uid x = u"
  unfolding queuesOk_def by (blast dest: in_queueAtD)

lemma uidListOk_offline: "uidListOk l qs \<Longrightarrow> OFFLINE_UID \<in> set l"
  by (metis last_in_set uidListOk_def)

lemma top_exists:
  assumes "structInv m qs l" "m \<noteq> []"
  shows "\<exists>topUid rest k ks x. l = topUid # rest \<and> map_of qs topUid = Some (k # ks)
           \<and> findSession m k = Some x"
proof -
  from assms(1) have ul: "uidListOk l qs" and qo: "queuesOk m qs" and so: "sessionsOk m qs"
    by (simp_all add: structInv_def)
  from ul obtain topUid rest where l: "l = topUid # rest"
    by (cases l) (auto simp: uidListOk_def)
  from ul l have "topUid \<in> dom (map_of qs)"
    by (auto simp: uidListOk_def)
  then obtain q where q: "map_of qs topUid = Some q" by auto
  have "q \<noteq> []"
  proof (cases "topUid = OFFLINE_UID")
    case False
    with qo q show ?thesis by (auto simp: queuesOk_def)
  next
    case True
    with ul l have "l = [OFFLINE_UID]"
      using distinct_hd_last [of l] by (simp add: uidListOk_def)
    with ul have d: "dom (map_of qs) = {OFFLINE_UID}"
      by (auto simp: uidListOk_def)
    from assms(2) obtain k x where "findSession m k = Some x"
      by (auto simp: sessionMap_empty_iff)
    with so have "k \<in> set (queueAt qs (uid x))"
      by (auto simp: sessionsOk_def)
    then have ne: "queueAt qs (uid x) \<noteq> []" by auto
    then have "uid x \<in> dom (map_of qs)" by (rule queueAt_nonempty_dom)
    with d have "uid x = OFFLINE_UID" by simp
    with ne q True show ?thesis by (simp add: queueAt_def)
  qed
  then obtain k ks where qk: "q = k # ks" by (cases q) auto
  with qo q obtain x where "findSession m k = Some x"
    by (fastforce simp: queuesOk_def)
  with l q qk show ?thesis by auto
qed

lemma getTopSession_l_ok:
  assumes "structOk s"
  shows "\<exists>r. getTopSession_l s = Inr r \<and> (r = None \<longleftrightarrow> mSessionMap s = [])
          \<and> (\<forall>k. r = Some k \<longrightarrow> findSession (mSessionMap s) k \<noteq> None)"
proof (cases "mSessionMap s = []")
  case True
  then show ?thesis by (simp add: getTopSession_l_def)
next
  case False
  from top_exists [OF assms [unfolded structOk_def] False] obtain topUid rest k ks x where
    "mUidSortedList s = topUid # rest" "map_of (mSessionQueues s) topUid = Some (k # ks)"
    "findSession (mSessionMap s) k = Some x" by blast
  with False show ?thesis by (simp add: getTopSession_l_def queueAt_def)
qed

lemma structInv_count:
  assumes "structInv m qs l"
  shows "length m = sum_list (map (\<lambda>u. length (queueAt qs u)) l)"
proof -
  from assms have kd: "distinct (map fst m)" and ul: "uidListOk l qs" and qo: "queuesOk m qs"
    and so: "sessionsOk m qs" by (simp_all add: structInv_def)
  have dq: "distinct (queueAt qs u)" for u
    using qo by (rule queuesOk_distinct)
  have uidq: "uid x = u" if "k \<in> set (queueAt qs u)" "findSession m k = Some x" for k u x
    using queuesOk_find [OF qo that(1)] that(2) by auto
  have inq: "\<exists>x. findSession m k = Some x" if "k \<in> set (queueAt qs u)" for k u
    using queuesOk_find [OF qo that] by auto
  have disj: "set (queueAt qs u) \<inter> set (queueAt qs u') = {}" if "u \<noteq> u'" for u u'
  proof -
    { fix k assume a: "k \<in> set (queueAt qs u)" and b: "k \<in> set (queueAt qs u')"
      from inq [OF a] obtain x where x: "findSession m k = Some x" ..
      from uidq [OF a x] uidq [OF b x] that have False by simp }
    then show ?thesis by auto
  qed
  have un: "(\<Union>u \<in> set l. set (queueAt qs u)) = fst ` set m"
  proof (intro set_eqI iffI)
    fix k assume "k \<in> (\<Union>u \<in> set l. set (queueAt qs u))"
    then obtain u where "k \<in> set (queueAt qs u)" by auto
    from inq [OF this] show "k \<in> fst ` set m"
      using findSession_None_iff [of m k] by auto
  next
    fix k assume "k \<in> fst ` set m"
    then obtain x where x: "findSession m k = Some x"
      using findSession_None_iff [of m k] by auto
    with so have k: "k \<in> set (queueAt qs (uid x))" by (auto simp: sessionsOk_def)
    then have "queueAt qs (uid x) \<noteq> []" by auto
    then have "uid x \<in> dom (map_of qs)" by (rule queueAt_nonempty_dom)
    with ul have "uid x \<in> set l" by (simp add: uidListOk_def)
    with k show "k \<in> (\<Union>u \<in> set l. set (queueAt qs u))" by auto
  qed
  have "sum_list (map (\<lambda>u. length (queueAt qs u)) l) = (\<Sum>u \<in> set l. length (queueAt qs u))"
    using ul by (simp add: uidListOk_def sum_list_distinct_conv_sum_set)
  also have "\<dots> = (\<Sum>u \<in> set l. card (set (queueAt qs u)))"
    by (simp add: distinct_card [OF dq])
  also have "\<dots> = card (\<Union>u \<in> set l. set (queueAt qs u))"
    by (rule card_UN_disjoint [symmetric]) (use disj in auto)
  also have "\<dots> = length m"
    using kd by (simp add: un length_eq_card_keys)
  finally show ?thesis by simp
qed

lemma structOk_validateState_l:
  assumes "structOk s"
  shows "validateState_l s"
proof -
  let ?m = "mSessionMap s" and ?qs = "mSessionQueues s" and ?l = "mUidSortedList s"
  from assms have si: "structInv ?m ?qs ?l" by (simp add: structOk_def)
  then have kd: "distinct (map fst ?qs)" and ul: "uidListOk ?l ?qs" and qo: "queuesOk ?m ?qs"
    by (simp_all add: structInv_def)
  from ul have off: "OFFLINE_UID \<in> set ?l" by (rule uidListOk_offline)
  with ul have 1: "map_of ?qs OFFLINE_UID \<noteq> None"
    by (auto simp: uidListOk_def)
  have "length ?l = card (dom (map_of ?qs))"
    using ul by (metis distinct_card uidListOk_def)
  also have "\<dots> = length ?qs"
    using kd by (simp add: dom_map_of_conv_image_fst length_eq_card_keys)
  finally have 2: "length ?l = length ?qs" .
  have 3: "list_all (\<lambda>u. map_of ?qs u \<noteq> None
            \<and> list_all (\<lambda>k. findSession ?m k \<noteq> None) (queueAt ?qs u)) ?l"
    unfolding list_all_iff
  proof (intro ballI conjI)
    fix u assume "u \<in> set ?l"
    with ul show "map_of ?qs u \<noteq> None" by (auto simp: uidListOk_def)
  next
    fix u k assume "u \<in> set ?l" "k \<in> set (queueAt ?qs u)"
    then show "findSession ?m k \<noteq> None"
      using queuesOk_find [OF qo, of k u] by auto
  qed
  from off 1 2 3 structInv_count [OF si] show ?thesis
    by (simp add: validateState_l_def)
qed

lemma validated_ok: "structOk s \<Longrightarrow> validated s = Inr s"
  by (simp add: validated_def structOk_validateState_l)

subsection \<open>Reordering the uid list\<close>

lemma moveLoop_mset:
  "distinct rest \<Longrightarrow> (p \<longrightarrow> c \<notin> set rest) \<Longrightarrow>
   moveLoop uids pr c rest pushed kept p n = (l, p') \<Longrightarrow>
   mset (if p' then c # l else l) = mset (if p then c # pushed @ kept @ rest else pushed @ kept @ rest)"
proof (induction rest arbitrary: pushed kept p n)
  case Nil
  then show ?case by auto
next
  case (Cons u rest)
  show ?case
  proof (cases "u \<noteq> OFFLINE_UID \<and> u \<in> uids")
    case False
    with Cons.prems have "moveLoop uids pr c rest pushed (kept @ [u]) p n = (l, p')"
      by auto
    from Cons.IH [OF _ _ this] Cons.prems(1,2) show ?thesis by auto
  next
    case moved: True
    show ?thesis
    proof (cases "Suc n = card uids")
      case True
      with moved Cons.prems show ?thesis by (auto simp: Let_def)
    next
      case False
      let ?pushed' = "if u = c \<and> pr then pushed else u # pushed"
      let ?p = "p \<or> (u = c \<and> pr)"
      from moved False Cons.prems(3)
      have "moveLoop uids pr c rest ?pushed' kept ?p (Suc n) = (l, p')"
        by (simp add: Let_def)
      from Cons.IH [OF _ _ this] Cons.prems(1,2) show ?thesis
        by (auto split: if_splits)
    qed
  qed
qed

lemma moveLoop_last:
  "(rest \<noteq> [] \<and> last rest = OFFLINE_UID) \<or> (rest = [] \<and> kept \<noteq> [] \<and> last kept = OFFLINE_UID) \<Longrightarrow>
   moveLoop uids pr c rest pushed kept p n = (l, p') \<Longrightarrow>
   l \<noteq> [] \<and> last l = OFFLINE_UID"
proof (induction rest arbitrary: pushed kept p n)
  case Nil
  then show ?case by auto
next
  case (Cons u rest)
  show ?case
  proof (cases "u \<noteq> OFFLINE_UID \<and> u \<in> uids")
    case False
    with Cons.prems have m: "moveLoop uids pr c rest pushed (kept @ [u]) p n = (l, p')"
      by auto
    from Cons.prems(1) False have
      "(rest \<noteq> [] \<and> last rest = OFFLINE_UID) \<or> (rest = [] \<and> kept @ [u] \<noteq> [] \<and> last (kept @ [u]) = OFFLINE_UID)"
      by (auto split: if_splits)
    from Cons.IH [OF this m] show ?thesis .
  next
    case moved: True
    with Cons.prems(1) have rest: "rest \<noteq> [] \<and> last rest = OFFLINE_UID"
      by (auto split: if_splits)
    show ?thesis
    proof (cases "Suc n = card uids")
      case True
      with moved Cons.prems(2) rest show ?thesis by (auto simp: Let_def)
    next
      case False
      let ?pushed' = "if u = c \<and> pr then pushed else u # pushed"
      let ?p = "p \<or> (u = c \<and> pr)"
      from moved False Cons.prems(2)
      have "moveLoop uids pr c rest ?pushed' kept ?p (Suc n) = (l, p')"
        by (simp add: Let_def)
      from Cons.IH [OF _ this] rest show ?thesis by simp
    qed
  qed
qed

lemma moveUidsToTop_l_spec:
  assumes "distinct (mUidSortedList s)" "mUidSortedList s \<noteq> []"
    "last (mUidSortedList s) = OFFLINE_UID"
  shows "\<exists>l. moveUidsToTop_l uids pr s = Inr (s\<lparr>mUidSortedList := l\<rparr>)
           \<and> mset l = mset (mUidSortedList s) \<and> l \<noteq> [] \<and> last l = OFFLINE_UID"
proof (cases "uids = {}")
  case True
  with assms show ?thesis
    by (intro exI [of _ "mUidSortedList s"]) (simp add: moveUidsToTop_l_def)
next
  case False
  from assms(2) obtain c rest where l: "mUidSortedList s = c # rest"
    by (cases "mUidSortedList s") auto
  obtain l' p' where m: "moveLoop uids pr c (mUidSortedList s) [] [] False 0 = (l', p')"
    by (cases "moveLoop uids pr c (mUidSortedList s) [] [] False 0") auto
  from moveLoop_mset [OF assms(1) _ m]
  have 1: "mset (if p' then c # l' else l') = mset (mUidSortedList s)" by simp
  from moveLoop_last [OF _ m] assms(2,3)
  have 2: "l' \<noteq> [] \<and> last l' = OFFLINE_UID" by simp
  from False l m have "moveUidsToTop_l uids pr s
      = Inr (s\<lparr>mUidSortedList := (if p' then c # l' else l')\<rparr>)"
    by (simp add: moveUidsToTop_l_def)
  with 1 2 show ?thesis by auto
qed

lemma uidListOk_mset:
  "uidListOk l qs \<Longrightarrow> mset l' = mset l \<Longrightarrow> l' \<noteq> [] \<Longrightarrow> last l' = OFFLINE_UID \<Longrightarrow> uidListOk l' qs"
  unfolding uidListOk_def
  by (metis mset_eq_imp_distinct_iff mset_eq_setD)

lemma structInv_mset:
  "structInv m qs l \<Longrightarrow> mset l' = mset l \<Longrightarrow> l' \<noteq> [] \<Longrightarrow> last l' = OFFLINE_UID \<Longrightarrow> structInv m qs l'"
  unfolding structInv_def by (blast intro: uidListOk_mset)

subsection \<open>Changing a session's state or progress\<close>

lemma findSession_modifySession_Some:
  "findSession (modifySession k f m) k' = Some y \<longleftrightarrow>
     (if k' = k then \<exists>x. findSession m k = Some x \<and> y = f x else findSession m k' = Some y)"
  by (cases "findSession m k") auto

lemma structInv_modifySession:
  assumes f: "\<And>x. uid (f x) = uid x" "\<And>x. key (f x) = key x"
  shows "structInv (modifySession k f m) qs l = structInv m qs l"
proof -
  have ex: "(\<exists>y. findSession (modifySession k f m) k' = Some y \<and> uid y = u)
        \<longleftrightarrow> (\<exists>x. findSession m k' = Some x \<and> uid x = u)" for k' u
    by (cases "findSession m k") (auto simp: f)
  have q: "queuesOk (modifySession k f m) qs = queuesOk m qs"
    unfolding queuesOk_def ex ..
  have s: "sessionsOk (modifySession k f m) qs = sessionsOk m qs"
  proof
    assume a: "sessionsOk (modifySession k f m) qs"
    show "sessionsOk m qs"
      unfolding sessionsOk_def
    proof (intro allI impI)
      fix k' x assume x: "findSession m k' = Some x"
      show "key x = k' \<and> k' \<in> set (queueAt qs (uid x))"
      proof (cases "k' = k")
        case True
        with x have "findSession (modifySession k f m) k' = Some (f x)" by simp
        with a have "key (f x) = k' \<and> k' \<in> set (queueAt qs (uid (f x)))"
          unfolding sessionsOk_def by blast
        then show ?thesis by (simp add: f)
      next
        case False
        with x have "findSession (modifySession k f m) k' = Some x" by simp
        with a show ?thesis unfolding sessionsOk_def by blast
      qed
    qed
  next
    assume a: "sessionsOk m qs"
    show "sessionsOk (modifySession k f m) qs"
      unfolding sessionsOk_def
    proof (intro allI impI)
      fix k' y assume y: "findSession (modifySession k f m) k' = Some y"
      show "key y = k' \<and> k' \<in> set (queueAt qs (uid y))"
      proof (cases "k' = k")
        case True
        with y obtain x where "findSession m k = Some x" "y = f x"
          by (auto simp: findSession_modifySession_Some)
        with a True show ?thesis unfolding sessionsOk_def by (simp add: f)
      next
        case False
        with y have "findSession m k' = Some y" by simp
        with a show ?thesis unfolding sessionsOk_def by blast
      qed
    qed
  qed
  show ?thesis by (simp add: structInv_def q s)
qed

lemma setState_fields [simp]:
  "mSessionQueues (setState k st s) = mSessionQueues s"
  "mUidSortedList (setState k st s) = mUidSortedList s"
  "mCurrentSession (setState k st s) = mCurrentSession s"
  "mResourceLost (setState k st s) = mResourceLost s"
  "effects (setState k st s) = effects s"
  by (simp_all add: setState_def)

lemma emit_fields [simp]:
  "mSessionMap (emit e s) = mSessionMap s"
  "mSessionQueues (emit e s) = mSessionQueues s"
  "mUidSortedList (emit e s) = mUidSortedList s"
  "mCurrentSession (emit e s) = mCurrentSession s"
  "mResourceLost (emit e s) = mResourceLost s"
  "effects (emit e s) = effects s @ [e]"
  by (simp_all add: emit_def)

lemma structOk_setState [simp]: "structOk (setState k st s) = structOk s"
  by (simp add: structOk_def setState_def structInv_modifySession)

lemma structOk_emit [simp]: "structOk (emit e s) = structOk s"
  by (simp add: structOk_def emit_def)

lemma structOk_cur_update [simp]: "structOk (s\<lparr>mCurrentSession := c\<rparr>) = structOk s"
  by (simp add: structOk_def)

lemma structOk_lost_update [simp]: "structOk (s\<lparr>mResourceLost := c\<rparr>) = structOk s"
  by (simp add: structOk_def)

lemma getTopSession_l_setState [simp]: "getTopSession_l (setState k st s) = getTopSession_l s"
  by (cases "findSession (mSessionMap s) k")
     (auto simp: getTopSession_l_def setState_def split: list.splits)

lemma getTopSession_l_emit [simp]: "getTopSession_l (emit e s) = getTopSession_l s"
  by (simp add: getTopSession_l_def emit_def split: list.splits)

lemma getTopSession_l_cur_update [simp]:
  "getTopSession_l (s\<lparr>mCurrentSession := c\<rparr>) = getTopSession_l s"
  by (simp add: getTopSession_l_def split: list.splits)

lemma getTopSession_l_lost_update [simp]:
  "getTopSession_l (s\<lparr>mResourceLost := c\<rparr>) = getTopSession_l s"
  by (simp add: getTopSession_l_def split: list.splits)

subsection \<open>Re-evaluating the current session\<close>

lemma sameSessions_refl [simp]: "sameSessions s s"
  by (simp add: sameSessions_def)

lemma sameSessions_trans: "sameSessions s s' \<Longrightarrow> sameSessions s' s'' \<Longrightarrow> sameSessions s s''"
  by (simp add: sameSessions_def)

lemma sameSessions_setState [simp]: "sameSessions s (setState k st s')  = sameSessions s s'"
proof -
  have "map_option (\<lambda>x. x\<lparr>state := NOT_STARTED\<rparr>) (findSession (mSessionMap (setState k st s')) k')
      = map_option (\<lambda>x. x\<lparr>state := NOT_STARTED\<rparr>) (findSession (mSessionMap s') k')" for k'
    by (cases "findSession (mSessionMap s') k") (auto simp: setState_def)
  then show ?thesis by (simp add: sameSessions_def) (simp add: setState_def)
qed

lemma sameSessions_emit [simp]: "sameSessions s (emit e s') = sameSessions s s'"
  by (simp add: sameSessions_def emit_def)

lemma sameSessions_cur_update [simp]:
  "sameSessions s (s'\<lparr>mCurrentSession := c\<rparr>) = sameSessions s s'"
  by (simp add: sameSessions_def)

lemma sameSessions_find:
  "sameSessions s s' \<Longrightarrow> findSession (mSessionMap s') k = Some y \<Longrightarrow>
   \<exists>x. findSession (mSessionMap s) k = Some x \<and> uid x = uid y \<and> key x = key y
      \<and> request x = request y \<and> callback x = callback y \<and> lastProgress x = lastProgress y"
proof -
  assume a: "sameSessions s s'" and y: "findSession (mSessionMap s') k = Some y"
  from a have "map_option (\<lambda>x. x\<lparr>state := NOT_STARTED\<rparr>) (findSession (mSessionMap s') k)
            = map_option (\<lambda>x. x\<lparr>state := NOT_STARTED\<rparr>) (findSession (mSessionMap s) k)"
    by (simp add: sameSessions_def)
  with y obtain x where x: "findSession (mSessionMap s) k = Some x"
    and e: "x\<lparr>state := NOT_STARTED\<rparr> = y\<lparr>state := NOT_STARTED\<rparr>"
    by (cases "findSession (mSessionMap s) k") auto
  from e have "uid x = uid y \<and> key x = key y \<and> request x = request y
      \<and> callback x = callback y \<and> lastProgress x = lastProgress y"
    by (cases x, cases y) simp
  with x show ?thesis by blast
qed

lemma sameSessions_dom:
  "sameSessions s s' \<Longrightarrow> findSession (mSessionMap s') k = None \<longleftrightarrow> findSession (mSessionMap s) k = None"
  by (simp add: sameSessions_def findSession_None_iff) (metis set_map)

lemma currentInv_noRunning:
  "(\<forall>k. cur = Some k \<longrightarrow> findSession (mSessionMap s) k \<noteq> None) \<Longrightarrow> noRunning s \<Longrightarrow>
   currentInv (mSessionMap s) cur lost"
  by (auto simp: currentInv_def noRunning_def)

lemma pauseCurrent_spec:
  assumes "currentInv (mSessionMap s) (mCurrentSession s) (mResourceLost s)"
  shows "(pauseCurrent s = Inr s \<and> noRunning s)
       \<or> (\<exists>c x. mCurrentSession s = Some c \<and> findSession (mSessionMap s) c = Some x
            \<and> state x = RUNNING \<and> \<not> mResourceLost s
            \<and> pauseCurrent s = Inr (setState c PAUSED
                 (emit (TranscoderPause (fst (key x)) (snd (key x))) s)))"
proof (cases "mCurrentSession s")
  case None
  with assms show ?thesis
    by (auto simp: pauseCurrent_def currentInv_def noRunning_def)
next
  case (Some c)
  with assms obtain x where x: "findSession (mSessionMap s) c = Some x"
    by (auto simp: currentInv_def)
  show ?thesis
  proof (cases "state x = RUNNING")
    case True
    with Some x assms show ?thesis
      by (auto simp: pauseCurrent_def currentInv_def)
  next
    case False
    with Some x assms have "noRunning s"
      by (auto simp: currentInv_def noRunning_def)
    with Some x False show ?thesis by (simp add: pauseCurrent_def)
  qed
qed

lemma noRunning_pause:
  assumes "currentInv (mSessionMap s) (mCurrentSession s) lost"
    "mCurrentSession s = Some c"
  shows "noRunning (setState c PAUSED (emit e s))"
  unfolding noRunning_def
proof (intro allI impI)
  fix k y assume y: "findSession (mSessionMap (setState c PAUSED (emit e s))) k = Some y"
  show "state y \<noteq> RUNNING"
  proof (cases "k = c")
    case True
    with y show ?thesis
      by (auto simp: setState_def emit_def findSession_modifySession_Some)
  next
    case False
    with y have "findSession (mSessionMap s) k = Some y"
      by (simp add: setState_def emit_def)
    with assms False show ?thesis by (auto simp: currentInv_def)
  qed
qed

lemma currentInv_start:
  assumes "noRunning s" "findSession (mSessionMap s) t \<noteq> None"
  shows "currentInv (mSessionMap (setState t RUNNING s)) (Some t) False"
  using assms
  by (auto simp: currentInv_def noRunning_def setState_def findSession_modifySession_Some
           split: if_splits)

lemma findSession_setState_None [simp]:
  "findSession (mSessionMap (setState k st s)) k' = None \<longleftrightarrow> findSession (mSessionMap s) k' = None"
  by (simp add: setState_def)

lemma noRunning_emit [simp]: "noRunning (emit e s) = noRunning s"
  by (simp add: noRunning_def)

lemma startTop_spec:
  assumes "\<not> mResourceLost s" "findSession (mSessionMap s) t = Some x"
  shows "\<exists>s'. startTop env t s = Inr (setState t RUNNING s') \<and> (s' = s \<or> (\<exists>e. s' = emit e s))"
  using assms by (auto simp: startTop_def)

lemma updateCurrentSession_l_spec:
  assumes "wellFormed s"
  shows "\<exists>s'. updateCurrentSession_l env s = Inr s' \<and> wellFormed s'
           \<and> getTopSession_l s' = Inr (mCurrentSession s') \<and> sameSessions s s'"
proof -
  from assms have so: "structOk s"
    and ci: "currentInv (mSessionMap s) (mCurrentSession s) (mResourceLost s)"
    by (simp_all add: wellFormed_def)
  from getTopSession_l_ok [OF so] obtain r where r: "getTopSession_l s = Inr r"
    "r = None \<longleftrightarrow> mSessionMap s = []" "\<forall>k. r = Some k \<longrightarrow> findSession (mSessionMap s) k \<noteq> None"
    by blast
  show ?thesis
  proof (cases r)
    case None
    with r have "mSessionMap s = []" by simp
    with None r so show ?thesis
      by (simp add: updateCurrentSession_l_def wellFormed_def currentInv_def findSession_def)
  next
    case (Some t)
    with r obtain xt where xt: "findSession (mSessionMap s) t = Some xt" by auto
    show ?thesis
    proof (cases "Some t \<noteq> mCurrentSession s \<or> state xt \<noteq> RUNNING")
      case False
      then have cur: "mCurrentSession s = Some t" and run: "state xt = RUNNING" by simp_all
      have "updateCurrentSession_l env s = Inr (s\<lparr>mCurrentSession := Some t\<rparr>)"
        unfolding updateCurrentSession_l_def r(1) Some by (simp add: xt cur run)
      moreover from cur have "s\<lparr>mCurrentSession := Some t\<rparr> = s" by simp
      ultimately show ?thesis using assms r(1) Some cur by simp
    next
      case True
      from pauseCurrent_spec [OF ci] obtain s1 where p: "pauseCurrent s = Inr s1"
        and s1: "noRunning s1" "structOk s1" "getTopSession_l s1 = getTopSession_l s"
          "sameSessions s s1" "mResourceLost s1 = mResourceLost s"
        using so noRunning_pause [OF ci] by (elim disjE exE conjE) simp_all
      from s1(4) xt have xt1: "findSession (mSessionMap s1) t \<noteq> None"
        using sameSessions_dom [of s s1 t] by simp
      then obtain xt' where xt': "findSession (mSessionMap s1) t = Some xt'" by auto
      show ?thesis
      proof (cases "mResourceLost s")
        case lost: True
        with s1 have st: "startTop env t s1 = Inr s1" by (simp add: startTop_def)
        have "currentInv (mSessionMap s1) (Some t) (mResourceLost s1)"
          using xt1 s1(1) by (auto intro: currentInv_noRunning)
        with True Some r xt p st s1 show ?thesis
          by (simp add: updateCurrentSession_l_def wellFormed_def)
      next
        case avail: False
        from avail s1(5) have "\<not> mResourceLost s1" by simp
        from startTop_spec [OF this xt'] obtain s1' where
          st: "startTop env t s1 = Inr (setState t RUNNING s1')"
          and alt: "s1' = s1 \<or> (\<exists>e. s1' = emit e s1)" by blast
        from alt s1 xt1 have s1': "noRunning s1'" "structOk s1'"
          "getTopSession_l s1' = getTopSession_l s"
          "sameSessions s s1'" "mResourceLost s1' = mResourceLost s"
          "findSession (mSessionMap s1') t \<noteq> None"
          by auto
        from currentInv_start [OF s1'(1) s1'(6)] avail
        have "currentInv (mSessionMap (setState t RUNNING s1')) (Some t) (mResourceLost s)"
          by simp
        with True Some r xt p st s1' show ?thesis
          by (simp add: updateCurrentSession_l_def wellFormed_def)
      qed
    qed
  qed
qed

subsection \<open>Removing a session\<close>

lemma removeAll_last:
  "l \<noteq> [] \<Longrightarrow> last l \<noteq> u \<Longrightarrow> removeAll u l \<noteq> [] \<and> last (removeAll u l) = last l"
  by (induction l) (auto split: if_splits)

lemma structInv_remove:
  assumes si: "structInv m qs l" and x: "findSession m k = Some x"
  shows "structInv (eraseSession k m)
           (if uid x \<noteq> OFFLINE_UID \<and> remove1 k (queueAt qs (uid x)) = []
            then AList.delete (uid x) (AList.update (uid x) (remove1 k (queueAt qs (uid x))) qs)
            else AList.update (uid x) (remove1 k (queueAt qs (uid x))) qs)
           (if uid x \<noteq> OFFLINE_UID \<and> remove1 k (queueAt qs (uid x)) = []
            then removeAll (uid x) l else l)"
    (is "structInv ?m' ?qs' ?l'")
proof -
  let ?u = "uid x" and ?q = "queueAt qs (uid x)"
  let ?del = "uid x \<noteq> OFFLINE_UID \<and> remove1 k ?q = []"
  from si have dm: "distinct (map fst m)" and dq: "distinct (map fst qs)"
    and ul: "uidListOk l qs" and qo: "queuesOk m qs" and so: "sessionsOk m qs"
    by (simp_all add: structInv_def)
  from so x have kq: "k \<in> set ?q" by (auto simp: sessionsOk_def)
  then obtain q0 where q0: "map_of qs ?u = Some q0" "k \<in> set q0"
    by (blast dest: in_queueAtD)
  then have qq: "?q = q0" by (simp add: queueAt_def)
  have dist: "distinct ?q" using qo by (rule queuesOk_distinct)
  have udom: "?u \<in> dom (map_of qs)" using q0 by auto
  have mq: "map_of ?qs' = (if ?del then (map_of qs)(?u := None)
                           else (map_of qs)(?u \<mapsto> remove1 k ?q))"
    by (auto simp: update_conv' delete_conv')
  have 1: "distinct (map fst ?m')" using dm by (rule distinct_eraseSession)
  have 2: "distinct (map fst ?qs')" using dq by (simp add: distinct_update distinct_delete)
  have 3: "uidListOk ?l' ?qs'"
  proof (cases ?del)
    case True
    with ul have "last l \<noteq> ?u" by (auto simp: uidListOk_def)
    with ul have "removeAll ?u l \<noteq> [] \<and> last (removeAll ?u l) = last l"
      by (intro removeAll_last) (simp_all add: uidListOk_def)
    with True ul show ?thesis
      by (auto simp: uidListOk_def update_conv' delete_conv' distinct_removeAll)
  next
    case False
    with ul udom show ?thesis by (auto simp: uidListOk_def update_conv')
  qed
  have other: "k \<notin> set q'" if "map_of qs u' = Some q'" "u' \<noteq> ?u" for u' q'
  proof
    assume "k \<in> set q'"
    with that(1) have "k \<in> set (queueAt qs u')" by (simp add: queueAt_def)
    from queuesOk_find [OF qo this] x that(2) show False by auto
  qed
  have 4: "queuesOk ?m' ?qs'"
    unfolding queuesOk_def
  proof (intro allI impI)
    fix u' q' assume a: "map_of ?qs' u' = Some q'"
    show "distinct q' \<and> (u' \<noteq> OFFLINE_UID \<longrightarrow> q' \<noteq> [])
        \<and> (\<forall>k' \<in> set q'. \<exists>y. findSession ?m' k' = Some y \<and> uid y = u')"
    proof (cases "u' = ?u")
      case True
      with a mq have del: "\<not> ?del" and q': "q' = remove1 k ?q"
        by (auto split: if_splits)
      have "\<exists>y. findSession ?m' k' = Some y \<and> uid y = u'" if "k' \<in> set q'" for k'
      proof -
        from that q' dist have "k' \<noteq> k" "k' \<in> set ?q" by auto
        with queuesOk_find [OF qo, of k' ?u] True show ?thesis by simp
      qed
      with del q' dist True show ?thesis by auto
    next
      case False
      with a mq have b: "map_of qs u' = Some q'" by (auto split: if_splits)
      from other [OF b False] have nk: "k \<notin> set q'" .
      from qo b have "distinct q' \<and> (u' \<noteq> OFFLINE_UID \<longrightarrow> q' \<noteq> [])
        \<and> (\<forall>k' \<in> set q'. \<exists>y. findSession m k' = Some y \<and> uid y = u')"
        unfolding queuesOk_def by blast
      with nk show ?thesis by auto
    qed
  qed
  have 5: "sessionsOk ?m' ?qs'"
    unfolding sessionsOk_def
  proof (intro allI impI)
    fix k' y assume "findSession ?m' k' = Some y"
    then have ne: "k' \<noteq> k" and y: "findSession m k' = Some y" by (auto split: if_splits)
    with so have ky: "key y = k'" and kin: "k' \<in> set (queueAt qs (uid y))"
      by (auto simp: sessionsOk_def)
    have "k' \<in> set (queueAt ?qs' (uid y))"
    proof (cases "uid y = ?u")
      case True
      with kin ne have "k' \<in> set (remove1 k ?q)" by simp
      with True show ?thesis by (auto split: if_splits)
    next
      case False
      with kin show ?thesis by simp
    qed
    with ky show "key y = k' \<and> k' \<in> set (queueAt ?qs' (uid y))" by simp
  qed
  from 1 2 3 4 5 show ?thesis by (simp add: structInv_def)
qed

lemma currentInv_erase:
  "currentInv m cur lost \<Longrightarrow>
   currentInv (eraseSession k m) (if cur = Some k then None else cur) lost"
  by (auto simp: currentInv_def split: if_splits)

lemma removeSession_l_absent:
  "findSession (mSessionMap s) k = None \<Longrightarrow> removeSession_l env k s = Inr s"
  by (simp add: removeSession_l_def)

lemma removeSession_l_spec:
  assumes w: "wellFormed s" and x: "findSession (mSessionMap s) k = Some x"
  shows "\<exists>s'. removeSession_l env k s = Inr s' \<and> wellFormed s'
           \<and> mSessionMap s' = eraseSession k (mSessionMap s)
           \<and> mResourceLost s' = mResourceLost s
           \<and> (\<forall>u. k \<notin> set (queueAt (mSessionQueues s') u))
           \<and> (effects s' = effects s \<or> effects s' = effects s @ [UnregisterMonitorUid (uid x)])"
proof -
  let ?m = "mSessionMap s" and ?qs = "mSessionQueues s" and ?l = "mUidSortedList s"
  let ?u = "uid x" and ?q = "queueAt ?qs (uid x)"
  let ?q' = "remove1 k ?q"
  let ?del = "?u \<noteq> OFFLINE_UID \<and> ?q' = []"
  from w have si: "structInv ?m ?qs ?l"
    and ci: "currentInv ?m (mCurrentSession s) (mResourceLost s)"
    by (simp_all add: wellFormed_def structOk_def)
  from si x have kq: "k \<in> set ?q" by (auto simp: structInv_def sessionsOk_def)
  note R = structInv_remove [OF si x]
  have ci': "currentInv (eraseSession k ?m)
      (if mCurrentSession s = Some k then None else mCurrentSession s) (mResourceLost s)"
    using ci by (rule currentInv_erase)
  have nq: "k \<notin> set (queueAt qs' u)" if "structInv (eraseSession k ?m) qs' l'" for qs' l' u
  proof
    assume "k \<in> set (queueAt qs' u)"
    with that have "\<exists>y. findSession (eraseSession k ?m) k = Some y \<and> uid y = u"
      by (intro queuesOk_find) (simp_all add: structInv_def)
    then show False by simp
  qed
  show ?thesis
  proof (cases ?del)
    case False
    let ?s' = "s\<lparr>mSessionQueues := AList.update ?u ?q' ?qs,
                 mCurrentSession := (if mCurrentSession s = Some k then None else mCurrentSession s),
                 mSessionMap := eraseSession k ?m\<rparr>"
    from False x kq have "removeSession_l env k s = Inr ?s'"
      by (auto simp: removeSession_l_def Let_def)
    moreover from R False ci' have "wellFormed ?s'"
      by (auto simp: wellFormed_def structOk_def)
    moreover from R False
    have "structInv (eraseSession k ?m) (AList.update ?u ?q' ?qs) ?l" by simp
    from nq [OF this] have "\<forall>u. k \<notin> set (queueAt (mSessionQueues ?s') u)"
      by simp
    ultimately show ?thesis by simp
  next
    case True
    let ?sA = "emit (UnregisterMonitorUid ?u)
                 (s\<lparr>mUidSortedList := removeAll ?u ?l,
                    mSessionQueues := AList.delete ?u (AList.update ?u ?q' ?qs)\<rparr>)"
    from R True have uo: "uidListOk (removeAll ?u ?l) (AList.delete ?u (AList.update ?u ?q' ?qs))"
      by (simp add: structInv_def)
    then have "distinct (mUidSortedList ?sA)" "mUidSortedList ?sA \<noteq> []"
      "last (mUidSortedList ?sA) = OFFLINE_UID"
      by (simp_all add: uidListOk_def)
    from moveUidsToTop_l_spec [OF this, of "getTopUids env k" False]
    obtain l' where mv: "moveUidsToTop_l (getTopUids env k) False ?sA
          = Inr (?sA\<lparr>mUidSortedList := l'\<rparr>)"
      and l': "mset l' = mset (removeAll ?u ?l)" "l' \<noteq> []" "last l' = OFFLINE_UID"
      by auto
    let ?s' = "?sA\<lparr>mUidSortedList := l',
                 mCurrentSession := (if mCurrentSession s = Some k then None else mCurrentSession s),
                 mSessionMap := eraseSession k ?m\<rparr>"
    from True x kq mv have "removeSession_l env k s = Inr ?s'"
      by (simp add: removeSession_l_def Let_def)
    moreover
    from R True have "structInv (eraseSession k ?m)
        (AList.delete ?u (AList.update ?u ?q' ?qs)) (removeAll ?u ?l)" by simp
    from structInv_mset [OF this l'] have si': "structInv (eraseSession k ?m)
        (AList.delete ?u (AList.update ?u ?q' ?qs)) l'" .
    with ci' have "wellFormed ?s'"
      by (simp add: wellFormed_def structOk_def)
    moreover from nq [OF si'] have "\<forall>u. k \<notin> set (queueAt (mSessionQueues ?s') u)"
      by simp
    ultimately show ?thesis by simp
  qed
qed

subsection \<open>Submitting a session\<close>

lemma structInv_insert:
  assumes si: "structInv m qs l" and nk: "findSession m k = None" and kx: "key x = k"
    and l': "distinct l'" "set l' = insert (uid x) (set l)" "l' \<noteq> []" "last l' = OFFLINE_UID"
  shows "structInv (insertSession k x m) (AList.update (uid x) (queueAt qs (uid x) @ [k]) qs) l'"
    (is "structInv ?m' ?qs' l'")
proof -
  let ?u = "uid x"
  from si have dm: "distinct (map fst m)" and dq: "distinct (map fst qs)"
    and ul: "uidListOk l qs" and qo: "queuesOk m qs" and so: "sessionsOk m qs"
    by (simp_all add: structInv_def)
  have fresh: "k \<notin> set (queueAt qs u)" for u
    using queuesOk_find [OF qo, of k u] nk by auto
  have 1: "distinct (map fst ?m')" using dm nk by (rule distinct_insertSession)
  have 2: "distinct (map fst ?qs')" using dq by (simp add: distinct_update)
  have 3: "uidListOk l' ?qs'"
    using ul l' by (auto simp: uidListOk_def update_conv')
  have 4: "queuesOk ?m' ?qs'"
    unfolding queuesOk_def
  proof (intro allI impI)
    fix u' q' assume a: "map_of ?qs' u' = Some q'"
    show "distinct q' \<and> (u' \<noteq> OFFLINE_UID \<longrightarrow> q' \<noteq> [])
        \<and> (\<forall>k' \<in> set q'. \<exists>y. findSession ?m' k' = Some y \<and> uid y = u')"
    proof (cases "u' = ?u")
      case True
      with a have q': "q' = queueAt qs ?u @ [k]" by (simp add: update_conv')
      have "\<exists>y. findSession ?m' k' = Some y \<and> uid y = u'" if "k' \<in> set q'" for k'
      proof (cases "k' = k")
        case True
        with \<open>u' = ?u\<close> show ?thesis by simp
      next
        case False
        with that q' have "k' \<in> set (queueAt qs ?u)" by simp
        from queuesOk_find [OF qo this] False \<open>u' = ?u\<close> show ?thesis by simp
      qed
      with q' fresh queuesOk_distinct [OF qo, of ?u] show ?thesis by auto
    next
      case False
      with a have b: "map_of qs u' = Some q'" by (simp add: update_conv')
      then have "queueAt qs u' = q'" by (simp add: queueAt_def)
      with fresh [of u'] have nk': "k \<notin> set q'" by simp
      from qo b have "distinct q' \<and> (u' \<noteq> OFFLINE_UID \<longrightarrow> q' \<noteq> [])
        \<and> (\<forall>k' \<in> set q'. \<exists>y. findSession m k' = Some y \<and> uid y = u')"
        unfolding queuesOk_def by blast
      with nk' show ?thesis by auto
    qed
  qed
  have 5: "sessionsOk ?m' ?qs'"
    unfolding sessionsOk_def
  proof (intro allI impI)
    fix k' y assume a: "findSession ?m' k' = Some y"
    show "key y = k' \<and> k' \<in> set (queueAt ?qs' (uid y))"
    proof (cases "k' = k")
      case True
      with a kx show ?thesis by simp
    next
      case False
      with a have "findSession m k' = Some y" by simp
      with so have "key y = k' \<and> k' \<in> set (queueAt qs (uid y))"
        by (auto simp: sessionsOk_def)
      then show ?thesis by auto
    qed
  qed
  from 1 2 3 4 5 show ?thesis by (simp add: structInv_def)
qed

lemma insertBeforeOffline_props:
  assumes "distinct l" "l \<noteq> []" "last l = OFFLINE_UID" "u \<notin> set l"
  shows "distinct (insertBeforeOffline u l)" "set (insertBeforeOffline u l) = insert u (set l)"
    "insertBeforeOffline u l \<noteq> []" "last (insertBeforeOffline u l) = OFFLINE_UID"
proof -
  define t where "t = takeWhile (\<lambda>x. x \<noteq> OFFLINE_UID) l"
  define d where "d = dropWhile (\<lambda>x. x \<noteq> OFFLINE_UID) l"
  have td: "l = t @ d" by (simp add: t_def d_def)
  have ins: "insertBeforeOffline u l = t @ u # d"
    by (simp add: insertBeforeOffline_def t_def d_def)
  from assms(2,3) have "OFFLINE_UID \<in> set l" by (metis last_in_set)
  then have dne: "d \<noteq> []" by (auto simp: d_def dropWhile_eq_Nil_conv)
  from assms(1,4) have "distinct (t @ d)" "u \<notin> set (t @ d)"
    by (simp_all add: td [symmetric])
  then show "distinct (insertBeforeOffline u l)"
    by (auto simp: ins)
  have "set l = set (t @ d)" by (simp add: td [symmetric])
  then show "set (insertBeforeOffline u l) = insert u (set l)"
    by (auto simp: ins)
  show "insertBeforeOffline u l \<noteq> []" by (simp add: ins)
  from assms(3) have "last (t @ d) = OFFLINE_UID" by (simp add: td [symmetric])
  with dne show "last (insertBeforeOffline u l) = OFFLINE_UID"
    by (simp add: ins)
qed

lemma move_to_front_props:
  assumes "distinct l" "l \<noteq> []" "last l = OFFLINE_UID" "u \<in> set l" "u \<noteq> OFFLINE_UID"
  shows "distinct (u # removeAll u l)" "set (u # removeAll u l) = insert u (set l)"
    "last (u # removeAll u l) = OFFLINE_UID"
proof -
  from assms show "distinct (u # removeAll u l)" by (simp add: distinct_removeAll)
  show "set (u # removeAll u l) = insert u (set l)" by auto
  from assms have "removeAll u l \<noteq> [] \<and> last (removeAll u l) = last l"
    by (intro removeAll_last) auto
  with assms(3) show "last (u # removeAll u l) = OFFLINE_UID" by simp
qed

text \<open>What \<open>placeUid\<close> does to a list that is in order: nothing but a new list.\<close>

lemma placeUid_spec:
  assumes ul: "uidListOk (mUidSortedList s) (mSessionQueues s)"
  shows "\<exists>s0 l'. placeUid env u s = Inr (s0\<lparr>mUidSortedList := l'\<rparr>)
           \<and> (s0 = s \<or> s0 = emit (RegisterMonitorUid u) s)
           \<and> distinct l' \<and> set l' = insert u (set (mUidSortedList s))
           \<and> l' \<noteq> [] \<and> last l' = OFFLINE_UID"
proof -
  let ?l = "mUidSortedList s"
  from ul have d: "distinct ?l" "?l \<noteq> []" "last ?l = OFFLINE_UID"
    and dom: "set ?l = dom (map_of (mSessionQueues s))"
    by (simp_all add: uidListOk_def)
  from ul have off: "OFFLINE_UID \<in> set ?l" by (rule uidListOk_offline)
  have same: "\<exists>s0 l'. Inr s = Inr (s0\<lparr>mUidSortedList := l'\<rparr>)
           \<and> (s0 = s \<or> s0 = emit (RegisterMonitorUid u) s)
           \<and> distinct l' \<and> set l' = insert u (set ?l) \<and> l' \<noteq> [] \<and> last l' = OFFLINE_UID"
    if "u \<in> set ?l"
    using that d by (intro exI [of _ s] exI [of _ ?l]) (auto simp: insert_absorb)
  show ?thesis
  proof (cases "u = OFFLINE_UID")
    case True
    with same off show ?thesis by (simp add: placeUid_def)
  next
    case rt: False
    show ?thesis
    proof (cases "map_of (mSessionQueues s) u")
      case None
      with dom have nin: "u \<notin> set ?l" by auto
      show ?thesis
      proof (cases "isUidOnTop env u")
        case True
        with rt None nin d show ?thesis
          by (intro exI [of _ "emit (RegisterMonitorUid u) s"] exI [of _ "u # ?l"])
             (simp add: placeUid_def)
      next
        case False
        with rt None insertBeforeOffline_props [OF d nin] show ?thesis
          by (intro exI [of _ "emit (RegisterMonitorUid u) s"]
                exI [of _ "insertBeforeOffline u ?l"])
             (simp add: placeUid_def)
      qed
    next
      case (Some q)
      with dom have uin: "u \<in> set ?l" by auto
      from d obtain front rest where fr: "?l = front # rest" by (cases ?l) auto
      show ?thesis
      proof (cases "u \<noteq> front \<and> isUidOnTop env u")
        case True
        with rt Some fr move_to_front_props [OF d uin rt] show ?thesis
          by (intro exI [of _ s] exI [of _ "u # removeAll u ?l"])
             (simp add: placeUid_def)
      next
        case False
        with rt Some fr have "placeUid env u s = Inr s" by (auto simp: placeUid_def)
        with same [OF uin] show ?thesis by simp
      qed
    qed
  qed
qed

lemma currentInv_insert:
  "currentInv m cur lost \<Longrightarrow> findSession m k = None \<Longrightarrow> state x = NOT_STARTED \<Longrightarrow>
   currentInv (insertSession k x m) cur lost"
  by (auto simp: currentInv_def split: if_splits)

text \<open>The state \<open>submit\<close> hands to \<open>updateCurrentSession_l\<close>.\<close>

lemma submit_enqueue:
  assumes w: "wellFormed s" and nk: "findSession (mSessionMap s) (c, i) = None"
  shows "\<exists>s2. submit env c i callerUid req cb s =
            (case updateCurrentSession_l env s2 of
               Inl f \<Rightarrow> Inl f
             | Inr s3 \<Rightarrow> (case validated s3 of Inl f \<Rightarrow> Inl f | Inr s4 \<Rightarrow> Inr (True, s4)))
          \<and> wellFormed s2
          \<and> mSessionMap s2 = insertSession (c, i) (newSession (c, i) (sessionUid callerUid req) req cb)
                (mSessionMap s)
          \<and> mResourceLost s2 = mResourceLost s \<and> mCurrentSession s2 = mCurrentSession s
          \<and> (effects s2 = effects s
               \<or> effects s2 = effects s @ [RegisterMonitorUid (sessionUid callerUid req)])"
proof -
  let ?k = "(c, i)" and ?u = "sessionUid callerUid req"
  let ?x = "newSession ?k ?u req cb"
  let ?s1 = "s\<lparr>mSessionMap := insertSession ?k ?x (mSessionMap s)\<rparr>"
  from w have si: "structInv (mSessionMap s) (mSessionQueues s) (mUidSortedList s)"
    and ci: "currentInv (mSessionMap s) (mCurrentSession s) (mResourceLost s)"
    by (simp_all add: wellFormed_def structOk_def)
  from si have "uidListOk (mUidSortedList ?s1) (mSessionQueues ?s1)"
    by (simp add: structInv_def)
  from placeUid_spec [OF this, of env ?u] obtain s0 l' where
    p: "placeUid env ?u ?s1 = Inr (s0\<lparr>mUidSortedList := l'\<rparr>)"
    and s0: "s0 = ?s1 \<or> s0 = emit (RegisterMonitorUid ?u) ?s1"
    and l': "distinct l'" "set l' = insert ?u (set (mUidSortedList s))" "l' \<noteq> []"
      "last l' = OFFLINE_UID"
    by auto
  let ?s2 = "s0\<lparr>mUidSortedList := l',
               mSessionQueues := AList.update ?u (queueAt (mSessionQueues s) ?u @ [?k])
                 (mSessionQueues s)\<rparr>"
  have ux: "uid ?x = ?u" "key ?x = ?k" "state ?x = NOT_STARTED" by (simp_all add: newSession_def)
  from structInv_insert [OF si nk ux(2), of l'] l' ux(1)
  have si2: "structInv (insertSession ?k ?x (mSessionMap s))
      (AList.update ?u (queueAt (mSessionQueues s) ?u @ [?k]) (mSessionQueues s)) l'"
    by simp
  from currentInv_insert [OF ci nk ux(3)]
  have ci2: "currentInv (insertSession ?k ?x (mSessionMap s)) (mCurrentSession s) (mResourceLost s)" .
  from s0 si2 ci2 have "wellFormed ?s2"
    by (auto simp: wellFormed_def structOk_def)
  moreover from nk p s0 have "submit env c i callerUid req cb s =
            (case updateCurrentSession_l env ?s2 of
               Inl f \<Rightarrow> Inl f
             | Inr s3 \<Rightarrow> (case validated s3 of Inl f \<Rightarrow> Inl f | Inr s4 \<Rightarrow> Inr (True, s4)))"
    by (auto simp: submit_def Let_def newSession_def sessionUid_def)
  moreover from s0 have "mSessionMap ?s2 = insertSession ?k ?x (mSessionMap s)"
    "mResourceLost ?s2 = mResourceLost s" "mCurrentSession ?s2 = mCurrentSession s"
    "effects ?s2 = effects s \<or> effects ?s2 = effects s @ [RegisterMonitorUid ?u]"
    by auto
  ultimately show ?thesis by blast
qed

lemma wellFormed_structOk: "wellFormed s \<Longrightarrow> structOk s"
  by (simp add: wellFormed_def)

text \<open>The common tail of the entry points: re-evaluate, then validate.\<close>

lemma update_validated:
  assumes "wellFormed s"
  shows "\<exists>s'. updateCurrentSession_l env s = Inr s' \<and> validated s' = Inr s' \<and> schedInv s'
           \<and> sameSessions s s'"
proof -
  from updateCurrentSession_l_spec [OF assms, of env] obtain s' where
    "updateCurrentSession_l env s = Inr s'" "wellFormed s'"
    "getTopSession_l s' = Inr (mCurrentSession s')" "sameSessions s s'" by blast
  then show ?thesis by (auto simp: schedInv_def validated_ok wellFormed_structOk)
qed

lemma submit_duplicate:
  "findSession (mSessionMap s) (c, i) \<noteq> None \<Longrightarrow> submit env c i callerUid req cb s = Inr (False, s)"
  by (simp add: submit_def)

lemma submit_spec:
  assumes w: "wellFormed s" and nk: "findSession (mSessionMap s) (c, i) = None"
  shows "\<exists>s2 s'. submit env c i callerUid req cb s = Inr (True, s') \<and> schedInv s'
          \<and> updateCurrentSession_l env s2 = Inr s' \<and> wellFormed s2 \<and> sameSessions s2 s'
          \<and> mSessionMap s2 = insertSession (c, i)
                (newSession (c, i) (sessionUid callerUid req) req cb) (mSessionMap s)
          \<and> mResourceLost s2 = mResourceLost s \<and> mCurrentSession s2 = mCurrentSession s
          \<and> (effects s2 = effects s
               \<or> effects s2 = effects s @ [RegisterMonitorUid (sessionUid callerUid req)])"
proof -
  from submit_enqueue [OF w nk, of env callerUid req cb] obtain s2 where
    s: "submit env c i callerUid req cb s =
            (case updateCurrentSession_l env s2 of
               Inl f \<Rightarrow> Inl f
             | Inr s3 \<Rightarrow> (case validated s3 of Inl f \<Rightarrow> Inl f | Inr s4 \<Rightarrow> Inr (True, s4)))"
    and s2: "wellFormed s2" "mSessionMap s2 = insertSession (c, i)
                (newSession (c, i) (sessionUid callerUid req) req cb) (mSessionMap s)"
      "mResourceLost s2 = mResourceLost s" "mCurrentSession s2 = mCurrentSession s"
      "effects s2 = effects s
         \<or> effects s2 = effects s @ [RegisterMonitorUid (sessionUid callerUid req)]"
    by blast
  from update_validated [OF s2(1), of env] obtain s' where
    u: "updateCurrentSession_l env s2 = Inr s'" "validated s' = Inr s'" "schedInv s'"
      "sameSessions s2 s'" by blast
  from s u have "submit env c i callerUid req cb s = Inr (True, s')" by simp
  with u s2 show ?thesis by blast
qed

subsection \<open>Cancelling\<close>

lemma cancelOne_spec:
  assumes w: "wellFormed s" and x: "findSession (mSessionMap s) k = Some x"
  shows "\<exists>s0 s'. cancelOne env k s = Inr s' \<and> removeSession_l env k s0 = Inr s'
           \<and> s0 = (if state x \<noteq> NOT_STARTED then emit (TranscoderStop (fst k) (snd k)) s else s)
           \<and> wellFormed s'
           \<and> mSessionMap s' = eraseSession k (mSessionMap s)
           \<and> mResourceLost s' = mResourceLost s
           \<and> (\<forall>u. k \<notin> set (queueAt (mSessionQueues s') u))
           \<and> (effects s' = effects s0 \<or> effects s' = effects s0 @ [UnregisterMonitorUid (uid x)])"
proof -
  let ?s0 = "if state x \<noteq> NOT_STARTED then emit (TranscoderStop (fst k) (snd k)) s else s"
  from w have w0: "wellFormed ?s0" by (simp add: wellFormed_def)
  from x have x0: "findSession (mSessionMap ?s0) k = Some x" by simp
  from removeSession_l_spec [OF w0 x0, of env] x show ?thesis
    by (auto simp: cancelOne_def)
qed

lemma cancelAll_spec:
  assumes "wellFormed s" "distinct ks" "\<forall>k \<in> set ks. findSession (mSessionMap s) k \<noteq> None"
  shows "\<exists>s' evs. cancelAll env ks s = Inr s' \<and> wellFormed s'
           \<and> mSessionMap s' = filter (\<lambda>e. fst e \<notin> set ks) (mSessionMap s)
           \<and> mResourceLost s' = mResourceLost s
           \<and> (\<forall>k \<in> set ks. \<forall>u. k \<notin> set (queueAt (mSessionQueues s') u))
           \<and> effects s' = effects s @ evs \<and> (\<forall>e \<in> set evs. quiet e)
           \<and> (\<forall>k \<in> set ks. \<forall>x. findSession (mSessionMap s) k = Some x \<and> state x \<noteq> NOT_STARTED
                 \<longrightarrow> TranscoderStop (fst k) (snd k) \<in> set evs)"
  using assms
proof (induction ks arbitrary: s)
  case Nil
  then show ?case by simp
next
  case (Cons k ks)
  from Cons.prems(3) obtain x where x: "findSession (mSessionMap s) k = Some x" by auto
  from cancelOne_spec [OF Cons.prems(1) x, of env] obtain s0 s1 where
    c: "cancelOne env k s = Inr s1" and w1: "wellFormed s1"
    and s0: "s0 = (if state x \<noteq> NOT_STARTED then emit (TranscoderStop (fst k) (snd k)) s else s)"
    and m1: "mSessionMap s1 = eraseSession k (mSessionMap s)"
    and l1: "mResourceLost s1 = mResourceLost s"
    and q1: "\<forall>u. k \<notin> set (queueAt (mSessionQueues s1) u)"
    and e1: "effects s1 = effects s0 \<or> effects s1 = effects s0 @ [UnregisterMonitorUid (uid x)]"
    by blast
  from Cons.prems(2,3) m1 have p: "distinct ks" "\<forall>k' \<in> set ks. findSession (mSessionMap s1) k' \<noteq> None"
    by auto
  from Cons.IH [OF w1 p] obtain s' evs where
    r: "cancelAll env ks s1 = Inr s'" "wellFormed s'"
      "mSessionMap s' = filter (\<lambda>e. fst e \<notin> set ks) (mSessionMap s1)"
      "mResourceLost s' = mResourceLost s1"
      "\<forall>k \<in> set ks. \<forall>u. k \<notin> set (queueAt (mSessionQueues s') u)"
      "effects s' = effects s1 @ evs" "\<forall>e \<in> set evs. quiet e"
      "\<forall>k \<in> set ks. \<forall>x. findSession (mSessionMap s1) k = Some x \<and> state x \<noteq> NOT_STARTED
                 \<longrightarrow> TranscoderStop (fst k) (snd k) \<in> set evs"
    by blast
  from s0 e1 obtain evs1 where evs1: "effects s1 = effects s @ evs1" "\<forall>e \<in> set evs1. quiet e"
    "state x \<noteq> NOT_STARTED \<longrightarrow> TranscoderStop (fst k) (snd k) \<in> set evs1"
    by (cases "state x = NOT_STARTED") (auto simp: quiet_def)
  have kq: "\<forall>u. k \<notin> set (queueAt (mSessionQueues s') u)"
  proof (intro allI notI)
    fix u assume "k \<in> set (queueAt (mSessionQueues s') u)"
    with r(2) have "\<exists>y. findSession (mSessionMap s') k = Some y \<and> uid y = u"
      by (intro queuesOk_find) (simp_all add: wellFormed_def structOk_def structInv_def)
    with r(3) m1 show False by (auto simp: findSession_def eraseSession_def map_of_eq_Some_iff dest: map_of_SomeD)
  qed
  have "cancelAll env (k # ks) s = Inr s'" using c r(1) by simp
  moreover have "mSessionMap s' = filter (\<lambda>e. fst e \<notin> set (k # ks)) (mSessionMap s)"
    using r(3) m1 by (auto simp: eraseSession_def intro: filter_cong)
  moreover have "effects s' = effects s @ (evs1 @ evs)" using r(6) evs1(1) by simp
  moreover have "\<forall>e \<in> set (evs1 @ evs). quiet e" using r(7) evs1(2) by auto
  moreover have "\<forall>k' \<in> set (k # ks). \<forall>x'. findSession (mSessionMap s) k' = Some x' \<and> state x' \<noteq> NOT_STARTED
                 \<longrightarrow> TranscoderStop (fst k') (snd k') \<in> set (evs1 @ evs)"
  proof (intro ballI allI impI)
    fix k' x' assume k': "k' \<in> set (k # ks)"
      and x': "findSession (mSessionMap s) k' = Some x' \<and> state x' \<noteq> NOT_STARTED"
    show "TranscoderStop (fst k') (snd k') \<in> set (evs1 @ evs)"
    proof (cases "k' = k")
      case True
      with x x' evs1(3) show ?thesis by simp
    next
      case False
      with k' have "k' \<in> set ks" by simp
      moreover from False x' m1 have "findSession (mSessionMap s1) k' = Some x'" by simp
      ultimately show ?thesis using r(8) x' by auto
    qed
  qed
  ultimately show ?case using r(2,4,5) l1 kq by (intro exI [of _ s'] exI [of _ "evs1 @ evs"]) simp
qed

lemma sessionsToRemove_props:
  assumes "distinct (map fst (mSessionMap s))"
  shows "distinct (sessionsToRemove c s)"
    "k \<in> set (sessionsToRemove c s) \<longleftrightarrow>
       (\<exists>x. findSession (mSessionMap s) k = Some x \<and> fst k = c \<and> uid x \<noteq> OFFLINE_UID)"
proof -
  show "distinct (sessionsToRemove c s)"
    using assms by (simp add: sessionsToRemove_def distinct_map_filter)
  have "k \<in> set (sessionsToRemove c s) \<longleftrightarrow>
      (\<exists>x. (k, x) \<in> set (mSessionMap s) \<and> fst k = c \<and> uid x \<noteq> OFFLINE_UID)"
    by (auto simp: sessionsToRemove_def image_iff)
  with assms show "k \<in> set (sessionsToRemove c s) \<longleftrightarrow>
       (\<exists>x. findSession (mSessionMap s) k = Some x \<and> fst k = c \<and> uid x \<noteq> OFFLINE_UID)"
    by (simp add: findSession_def)
qed

lemma cancel_unknown:
  "\<not> i < 0 \<Longrightarrow> findSession (mSessionMap s) (c, i) = None \<Longrightarrow> cancel env c i s = Inr (False, s)"
  by (simp add: cancel_def)

lemma cancel_spec:
  assumes w: "wellFormed s" and k: "i < 0 \<or> findSession (mSessionMap s) (c, i) \<noteq> None"
  shows "\<exists>s1 s' evs. cancel env c i s = Inr (True, s') \<and> schedInv s'
           \<and> cancelAll env (cancelKeys c i s) s = Inr s1
           \<and> updateCurrentSession_l env s1 = Inr s' \<and> wellFormed s1 \<and> sameSessions s1 s'
           \<and> mSessionMap s1 = filter (\<lambda>e. fst e \<notin> set (cancelKeys c i s)) (mSessionMap s)
           \<and> mResourceLost s1 = mResourceLost s
           \<and> (\<forall>k \<in> set (cancelKeys c i s). \<forall>u. k \<notin> set (queueAt (mSessionQueues s1) u))
           \<and> effects s1 = effects s @ evs \<and> (\<forall>e \<in> set evs. quiet e)
           \<and> (\<forall>k \<in> set (cancelKeys c i s). \<forall>x.
                 findSession (mSessionMap s) k = Some x \<and> state x \<noteq> NOT_STARTED
                 \<longrightarrow> TranscoderStop (fst k) (snd k) \<in> set evs)"
proof -
  let ?ks = "cancelKeys c i s"
  from w have dm: "distinct (map fst (mSessionMap s))"
    by (simp add: wellFormed_def structOk_def structInv_def)
  have d: "distinct ?ks"
    using sessionsToRemove_props(1) [OF dm] by (simp add: cancelKeys_def)
  have p: "\<forall>k \<in> set ?ks. findSession (mSessionMap s) k \<noteq> None"
    using sessionsToRemove_props(2) [OF dm] k by (auto simp: cancelKeys_def)
  from cancelAll_spec [OF w d p, of env] obtain s1 evs where
    r: "cancelAll env ?ks s = Inr s1" "wellFormed s1"
      "mSessionMap s1 = filter (\<lambda>e. fst e \<notin> set ?ks) (mSessionMap s)"
      "mResourceLost s1 = mResourceLost s"
      "\<forall>k \<in> set ?ks. \<forall>u. k \<notin> set (queueAt (mSessionQueues s1) u)"
      "effects s1 = effects s @ evs" "\<forall>e \<in> set evs. quiet e"
      "\<forall>k \<in> set ?ks. \<forall>x. findSession (mSessionMap s) k = Some x \<and> state x \<noteq> NOT_STARTED
                 \<longrightarrow> TranscoderStop (fst k) (snd k) \<in> set evs"
    by blast
  from update_validated [OF r(2), of env] obtain s' where
    u: "updateCurrentSession_l env s1 = Inr s'" "validated s' = Inr s'" "schedInv s'"
      "sameSessions s1 s'" by blast
  from k r(1) u have "cancel env c i s = Inr (True, s')"
    by (auto simp: cancel_def cancelKeys_def)
  with r u show ?thesis by blast
qed

subsection \<open>Events of the transcoder\<close>

lemma callClient_fields [simp]:
  "mSessionMap (callClient env x ev s) = mSessionMap s"
  "mSessionQueues (callClient env x ev s) = mSessionQueues s"
  "mUidSortedList (callClient env x ev s) = mUidSortedList s"
  "mCurrentSession (callClient env x ev s) = mCurrentSession s"
  "mResourceLost (callClient env x ev s) = mResourceLost s"
  by (simp_all add: callClient_def split: option.splits)

lemma structOk_callClient [simp]: "structOk (callClient env x ev s) = structOk s"
  by (simp add: structOk_def)

lemma wellFormed_callClient [simp]: "wellFormed (callClient env x ev s) = wellFormed s"
  by (simp add: wellFormed_def structOk_def)

lemma getTopSession_l_callClient [simp]:
  "getTopSession_l (callClient env x ev s) = getTopSession_l s"
  by (simp add: callClient_def split: option.splits)

lemma schedInv_callClient [simp]: "schedInv (callClient env x ev s) = schedInv s"
  by (simp add: schedInv_def)

lemma notifyClient_ignored:
  "findSession (mSessionMap s) (c, i) = None
     \<or> (\<exists>x. findSession (mSessionMap s) (c, i) = Some x \<and> state x = NOT_STARTED)
   \<Longrightarrow> notifyClient c i func s = Inr s"
  by (auto simp: notifyClient_def)

lemma notifyClient_started:
  "findSession (mSessionMap s) (c, i) = Some x \<Longrightarrow> state x \<noteq> NOT_STARTED
   \<Longrightarrow> notifyClient c i func s = func (c, i) x s"
  by (simp add: notifyClient_def)

lemma notifyClient_cases:
  obtains (ignored) "notifyClient c i func s = Inr s"
    "findSession (mSessionMap s) (c, i) = None
     \<or> (\<exists>x. findSession (mSessionMap s) (c, i) = Some x \<and> state x = NOT_STARTED)"
  | (started) x where "findSession (mSessionMap s) (c, i) = Some x" "state x \<noteq> NOT_STARTED"
      "notifyClient c i func s = func (c, i) x s"
  by (cases "findSession (mSessionMap s) (c, i)") (auto simp: notifyClient_def)

lemma removeAndUpdate_spec:
  assumes w: "wellFormed s" and x: "findSession (mSessionMap s) k = Some x"
  shows "\<exists>s1 s'. removeAndUpdate env k s = Inr s' \<and> schedInv s'
           \<and> removeSession_l env k s = Inr s1 \<and> updateCurrentSession_l env s1 = Inr s'
           \<and> wellFormed s1 \<and> sameSessions s1 s'
           \<and> mSessionMap s1 = eraseSession k (mSessionMap s)
           \<and> mResourceLost s1 = mResourceLost s
           \<and> (\<forall>u. k \<notin> set (queueAt (mSessionQueues s1) u))"
proof -
  from removeSession_l_spec [OF w x, of env] obtain s1 where
    r: "removeSession_l env k s = Inr s1" "wellFormed s1"
      "mSessionMap s1 = eraseSession k (mSessionMap s)" "mResourceLost s1 = mResourceLost s"
      "\<forall>u. k \<notin> set (queueAt (mSessionQueues s1) u)" by blast
  from update_validated [OF r(2), of env] obtain s' where
    u: "updateCurrentSession_l env s1 = Inr s'" "validated s' = Inr s'" "schedInv s'"
      "sameSessions s1 s'" by blast
  from r(1) u have "removeAndUpdate env k s = Inr s'" by (simp add: removeAndUpdate_def)
  with r u show ?thesis by blast
qed

lemma schedInv_wellFormed: "schedInv s \<Longrightarrow> wellFormed s"
  by (simp add: schedInv_def)

lemma onStarted_schedInv: "schedInv s \<Longrightarrow> \<exists>s'. onStarted env c i s = Inr s' \<and> schedInv s'"
  by (rule notifyClient_cases [of c i _ s]) (auto simp: onStarted_def)

lemma onPaused_schedInv: "schedInv s \<Longrightarrow> \<exists>s'. onPaused env c i s = Inr s' \<and> schedInv s'"
  by (rule notifyClient_cases [of c i _ s]) (auto simp: onPaused_def)

lemma onResumed_schedInv: "schedInv s \<Longrightarrow> \<exists>s'. onResumed env c i s = Inr s' \<and> schedInv s'"
  by (rule notifyClient_cases [of c i _ s]) (auto simp: onResumed_def)

lemma onFinish_schedInv:
  assumes "schedInv s"
  shows "\<exists>s'. onFinish env c i s = Inr s' \<and> schedInv s'"
proof (rule notifyClient_cases [of c i _ s])
  assume "notifyClient c i
     (\<lambda>sessionKey session s.
          removeAndUpdate env sessionKey
            (callClient env session (\<lambda>cb. OnTranscodingFinished cb i) s)) s = Inr s"
  with assms show ?thesis by (simp add: onFinish_def)
next
  fix x assume x: "findSession (mSessionMap s) (c, i) = Some x"
    and n: "notifyClient c i
     (\<lambda>sessionKey session s.
          removeAndUpdate env sessionKey
            (callClient env session (\<lambda>cb. OnTranscodingFinished cb i) s)) s
       = removeAndUpdate env (c, i) (callClient env x (\<lambda>cb. OnTranscodingFinished cb i) s)"
  let ?s0 = "callClient env x (\<lambda>cb. OnTranscodingFinished cb i) s"
  from assms have "wellFormed ?s0" by (simp add: schedInv_def)
  moreover from x have "findSession (mSessionMap ?s0) (c, i) = Some x" by simp
  ultimately obtain s' where "removeAndUpdate env (c, i) ?s0 = Inr s'" "schedInv s'"
    using removeAndUpdate_spec [of ?s0 "(c, i)" x env] by blast
  with n show ?thesis by (simp add: onFinish_def)
qed

lemma onError_schedInv:
  assumes "schedInv s"
  shows "\<exists>s'. onError env c i err s = Inr s' \<and> schedInv s'"
proof (rule notifyClient_cases [of c i _ s])
  assume "notifyClient c i
     (\<lambda>sessionKey session s.
          removeAndUpdate env sessionKey
            (callClient env session (\<lambda>cb. OnTranscodingFailed cb i err) s)) s = Inr s"
  with assms show ?thesis by (simp add: onError_def)
next
  fix x assume x: "findSession (mSessionMap s) (c, i) = Some x"
    and n: "notifyClient c i
     (\<lambda>sessionKey session s.
          removeAndUpdate env sessionKey
            (callClient env session (\<lambda>cb. OnTranscodingFailed cb i err) s)) s
       = removeAndUpdate env (c, i) (callClient env x (\<lambda>cb. OnTranscodingFailed cb i err) s)"
  let ?s0 = "callClient env x (\<lambda>cb. OnTranscodingFailed cb i err) s"
  from assms have "wellFormed ?s0" by (simp add: schedInv_def)
  moreover from x have "findSession (mSessionMap ?s0) (c, i) = Some x" by simp
  ultimately obtain s' where "removeAndUpdate env (c, i) ?s0 = Inr s'" "schedInv s'"
    using removeAndUpdate_spec [of ?s0 "(c, i)" x env] by blast
  with n show ?thesis by (simp add: onError_def)
qed

lemma currentInv_modify_other:
  assumes "\<And>x. state (f x) = state x"
  shows "currentInv (modifySession k f m) cur lost = currentInv m cur lost"
proof -
  have ex: "(\<exists>y. findSession (modifySession k f m) k' = Some y \<and> P (state y))
        \<longleftrightarrow> (\<exists>x. findSession m k' = Some x \<and> P (state x))" for k' P
    by (cases "findSession m k") (auto simp: assms)
  have a: "(\<forall>k' y. findSession (modifySession k f m) k' = Some y \<and> state y = RUNNING \<longrightarrow> cur = Some k')
      \<longleftrightarrow> (\<forall>k' x. findSession m k' = Some x \<and> state x = RUNNING \<longrightarrow> cur = Some k')"
    using ex [where P = "\<lambda>st. st = RUNNING"] by blast
  have b: "(\<forall>k' y. findSession (modifySession k f m) k' = Some y \<longrightarrow> state y \<noteq> RUNNING)
      \<longleftrightarrow> (\<forall>k' x. findSession m k' = Some x \<longrightarrow> state x \<noteq> RUNNING)"
    using ex [where P = "\<lambda>st. st = RUNNING"] by blast
  have c: "findSession (modifySession k f m) k' \<noteq> None \<longleftrightarrow> findSession m k' \<noteq> None" for k'
    by (cases "findSession m k") auto
  show ?thesis unfolding currentInv_def a b c ..
qed

lemma getTopSession_l_modify [simp]:
  "getTopSession_l (s\<lparr>mSessionMap := modifySession k f (mSessionMap s)\<rparr>) = getTopSession_l s"
  by (cases "findSession (mSessionMap s) k")
     (auto simp: getTopSession_l_def split: list.splits)

lemma onProgressUpdate_schedInv:
  assumes "schedInv s"
  shows "\<exists>s'. onProgressUpdate env c i p s = Inr s' \<and> schedInv s'"
proof (rule notifyClient_cases [of c i _ s])
  assume "notifyClient c i
       (\<lambda>sessionKey session s.
          Inr ((callClient env session (\<lambda>cb. OnProgressUpdate cb i p) s)
                 \<lparr>mSessionMap := modifySession sessionKey (\<lambda>x. x\<lparr>lastProgress := p\<rparr>)
                    (mSessionMap s)\<rparr>)) s = Inr s"
  with assms show ?thesis by (simp add: onProgressUpdate_def)
next
  fix x assume x: "findSession (mSessionMap s) (c, i) = Some x"
    and n: "notifyClient c i
       (\<lambda>sessionKey session s.
          Inr ((callClient env session (\<lambda>cb. OnProgressUpdate cb i p) s)
                 \<lparr>mSessionMap := modifySession sessionKey (\<lambda>x. x\<lparr>lastProgress := p\<rparr>)
                    (mSessionMap s)\<rparr>)) s
       = Inr ((callClient env x (\<lambda>cb. OnProgressUpdate cb i p) s)
                 \<lparr>mSessionMap := modifySession (c, i) (\<lambda>x. x\<lparr>lastProgress := p\<rparr>)
                    (mSessionMap s)\<rparr>)"
  let ?s' = "(callClient env x (\<lambda>cb. OnProgressUpdate cb i p) s)
                 \<lparr>mSessionMap := modifySession (c, i) (\<lambda>x. x\<lparr>lastProgress := p\<rparr>)
                    (mSessionMap s)\<rparr>"
  from assms have "wellFormed ?s'"
    by (simp add: schedInv_def wellFormed_def structOk_def structInv_modifySession
        currentInv_modify_other)
  moreover have "getTopSession_l ?s'
      = getTopSession_l (s\<lparr>mSessionMap := modifySession (c, i) (\<lambda>x. x\<lparr>lastProgress := p\<rparr>)
                    (mSessionMap s)\<rparr>)"
    by (simp add: getTopSession_l_def split: list.splits)
  with assms have "getTopSession_l ?s' = Inr (mCurrentSession ?s')"
    by (simp add: schedInv_def)
  ultimately show ?thesis using n by (simp add: onProgressUpdate_def schedInv_def)
qed

subsection \<open>Resource loss, resource recovery and changes of the top uids\<close>

lemma currentInv_imp_noRunning:
  "currentInv (mSessionMap s) (mCurrentSession s) lost \<Longrightarrow>
   (mCurrentSession s = None
    \<or> (\<exists>c x. mCurrentSession s = Some c \<and> findSession (mSessionMap s) c = Some x \<and> state x \<noteq> RUNNING))
   \<Longrightarrow> noRunning s"
  by (auto simp: currentInv_def noRunning_def)

lemma noRunning_pause':
  assumes "currentInv (mSessionMap s) (mCurrentSession s) lost" "mCurrentSession s = Some c"
  shows "noRunning (setState c PAUSED s)"
proof -
  have "noRunning (setState c PAUSED (emit (RegisterMonitorUid 0) s))"
    using assms by (intro noRunning_pause [where lost = lost]) simp_all
  then show ?thesis by (simp add: noRunning_def setState_def)
qed

lemma onResourceLost_spec:
  assumes "schedInv s"
  shows "\<exists>s'. onResourceLost env s = Inr s' \<and> schedInv s' \<and> noRunning s'
           \<and> mCurrentSession s' = mCurrentSession s \<and> mResourceLost s'"
proof (cases "mResourceLost s")
  case True
  with assms have "noRunning s"
    by (auto simp: schedInv_def wellFormed_def currentInv_def noRunning_def)
  with True assms show ?thesis by (simp add: onResourceLost_def)
next
  case False
  from assms have so: "structOk s"
    and ci: "currentInv (mSessionMap s) (mCurrentSession s) (mResourceLost s)"
    and top: "getTopSession_l s = Inr (mCurrentSession s)"
    by (simp_all add: schedInv_def wellFormed_def)
  have "\<exists>s1. (case mCurrentSession s of
                   None \<Rightarrow> Inr s
                 | Some cur \<Rightarrow>
                     (case findSession (mSessionMap s) cur of
                        None \<Rightarrow> Inl DanglingSession
                      | Some curSession \<Rightarrow>
                          if state curSession = RUNNING
                          then Inr (callClient env curSession
                                      (\<lambda>cb. OnTranscodingPaused cb (snd (key curSession)))
                                      (setState cur PAUSED s))
                          else Inr s)) = Inr s1
        \<and> noRunning s1 \<and> structOk s1 \<and> getTopSession_l s1 = getTopSession_l s
        \<and> mCurrentSession s1 = mCurrentSession s
        \<and> (\<forall>k. findSession (mSessionMap s1) k = None \<longleftrightarrow> findSession (mSessionMap s) k = None)"
  proof (cases "mCurrentSession s")
    case None
    with currentInv_imp_noRunning [OF ci] so show ?thesis by simp
  next
    case (Some c)
    with ci obtain x where x: "findSession (mSessionMap s) c = Some x"
      by (auto simp: currentInv_def)
    show ?thesis
    proof (cases "state x = RUNNING")
      case True
      from noRunning_pause' [OF ci Some]
      have "noRunning (callClient env x (\<lambda>cb. OnTranscodingPaused cb (snd (key x)))
                (setState c PAUSED s))"
        by (simp add: noRunning_def)
      with Some x True so show ?thesis by simp
    next
      case False
      with currentInv_imp_noRunning [OF ci] Some x so show ?thesis by simp
    qed
  qed
  then obtain s1 where s1: "(case mCurrentSession s of
                   None \<Rightarrow> Inr s
                 | Some cur \<Rightarrow>
                     (case findSession (mSessionMap s) cur of
                        None \<Rightarrow> Inl DanglingSession
                      | Some curSession \<Rightarrow>
                          if state curSession = RUNNING
                          then Inr (callClient env curSession
                                      (\<lambda>cb. OnTranscodingPaused cb (snd (key curSession)))
                                      (setState cur PAUSED s))
                          else Inr s)) = Inr s1"
    and p: "noRunning s1" "structOk s1" "getTopSession_l s1 = getTopSession_l s"
      "mCurrentSession s1 = mCurrentSession s"
      "\<forall>k. findSession (mSessionMap s1) k = None \<longleftrightarrow> findSession (mSessionMap s) k = None"
    by blast
  let ?s' = "s1\<lparr>mResourceLost := True\<rparr>"
  from ci p have "currentInv (mSessionMap ?s') (mCurrentSession ?s') (mResourceLost ?s')"
    by (auto simp: currentInv_def noRunning_def)
  with p top have "schedInv ?s'" "noRunning ?s'"
    by (simp_all add: schedInv_def wellFormed_def noRunning_def)
  moreover from this have "validated ?s' = Inr ?s'"
    by (simp add: validated_ok schedInv_def wellFormed_def)
  ultimately show ?thesis using False s1 p(4) by (simp add: onResourceLost_def)
qed

lemma onTopUidsChanged_spec:
  assumes "schedInv s"
  shows "\<exists>s'. onTopUidsChanged env uids s = Inr s' \<and> schedInv s'"
proof (cases "uids = {}")
  case True
  with assms show ?thesis by (simp add: onTopUidsChanged_def)
next
  case False
  from assms have si: "structInv (mSessionMap s) (mSessionQueues s) (mUidSortedList s)"
    and ci: "currentInv (mSessionMap s) (mCurrentSession s) (mResourceLost s)"
    by (simp_all add: schedInv_def wellFormed_def structOk_def)
  from si have "distinct (mUidSortedList s)" "mUidSortedList s \<noteq> []"
    "last (mUidSortedList s) = OFFLINE_UID"
    by (simp_all add: structInv_def uidListOk_def)
  from moveUidsToTop_l_spec [OF this, of uids True] obtain l' where
    mv: "moveUidsToTop_l uids True s = Inr (s\<lparr>mUidSortedList := l'\<rparr>)"
    and l': "mset l' = mset (mUidSortedList s)" "l' \<noteq> []" "last l' = OFFLINE_UID"
    by blast
  from structInv_mset [OF si l'] ci have "wellFormed (s\<lparr>mUidSortedList := l'\<rparr>)"
    by (simp add: wellFormed_def structOk_def)
  from update_validated [OF this, of env] obtain s' where
    "updateCurrentSession_l env (s\<lparr>mUidSortedList := l'\<rparr>) = Inr s'"
    "validated s' = Inr s'" "schedInv s'" by blast
  with False mv show ?thesis by (simp add: onTopUidsChanged_def)
qed

lemma onResourceAvailable_spec:
  assumes "schedInv s"
  shows "\<exists>s'. onResourceAvailable env s = Inr s' \<and> schedInv s'"
proof (cases "mResourceLost s")
  case False
  with assms show ?thesis by (simp add: onResourceAvailable_def)
next
  case True
  from assms have "wellFormed (s\<lparr>mResourceLost := False\<rparr>)"
    by (auto simp: schedInv_def wellFormed_def currentInv_def)
  from update_validated [OF this, of env] obtain s' where
    "updateCurrentSession_l env (s\<lparr>mResourceLost := False\<rparr>) = Inr s'"
    "validated s' = Inr s'" "schedInv s'" by blast
  with True show ?thesis by (simp add: onResourceAvailable_def)
qed

subsection \<open>Reachable states\<close>

lemma schedInv_init: "schedInv initController"
  by (simp add: schedInv_def wellFormed_def structOk_def structInv_def uidListOk_def
      queuesOk_def sessionsOk_def currentInv_def initController_def getTopSession_l_def
      findSession_def)

lemma reachable_schedInv: "reachable s \<Longrightarrow> schedInv s"
proof (induction rule: reachable.induct)
  case init
  show ?case by (rule schedInv_init)
next
  case (submit s env c i callerUid req cb b s')
  show ?case
  proof (cases "findSession (mSessionMap s) (c, i)")
    case None
    from submit_spec [OF schedInv_wellFormed [OF submit.IH] None, of env callerUid req cb]
      submit.hyps(2) show ?thesis by auto
  next
    case (Some x)
    then have "submit env c i callerUid req cb s = Inr (False, s)"
      by (simp add: submit_duplicate)
    with submit show ?thesis by simp
  qed
next
  case (cancel s env c i b s')
  show ?case
  proof (cases "i < 0 \<or> findSession (mSessionMap s) (c, i) \<noteq> None")
    case True
    from cancel_spec [OF schedInv_wellFormed [OF cancel.IH] True, of env] cancel.hyps(2)
    show ?thesis by auto
  next
    case False
    then have "cancel env c i s = Inr (False, s)" by (simp add: cancel_unknown)
    with cancel show ?thesis by simp
  qed
next
  case (onStarted s env c i s')
  with onStarted_schedInv [of s env c i] show ?case by auto
next
  case (onPaused s env c i s')
  with onPaused_schedInv [of s env c i] show ?case by auto
next
  case (onResumed s env c i s')
  with onResumed_schedInv [of s env c i] show ?case by auto
next
  case (onFinish s env c i s')
  with onFinish_schedInv [of s env c i] show ?case by auto
next
  case (onError s env c i err s')
  with onError_schedInv [of s env c i err] show ?case by auto
next
  case (onProgressUpdate s env c i p s')
  with onProgressUpdate_schedInv [of s env c i p] show ?case by auto
next
  case (onResourceLost s env s')
  with onResourceLost_spec [of s env] show ?case by auto
next
  case (onTopUidsChanged s env uids s')
  with onTopUidsChanged_spec [of s env uids] show ?case by auto
next
  case (onResourceAvailable s env s')
  with onResourceAvailable_spec [of s env] show ?case by auto
qed

subsection \<open>What re-evaluation does, case by case\<close>

lemma wellFormed_lost_noRunning: "wellFormed s \<Longrightarrow> mResourceLost s \<Longrightarrow> noRunning s"
  by (auto simp: wellFormed_def currentInv_def noRunning_def)

lemma pauseCurrent_noRunning: "noRunning s \<Longrightarrow> wellFormed s \<Longrightarrow> pauseCurrent s = Inr s"
  by (cases "mCurrentSession s")
     (auto simp: pauseCurrent_def noRunning_def wellFormed_def currentInv_def)

lemma updateCurrentSession_l_lost:
  assumes "wellFormed s" "mResourceLost s" "getTopSession_l s = Inr t"
  shows "updateCurrentSession_l env s = Inr (s\<lparr>mCurrentSession := t\<rparr>)"
proof (cases t)
  case None
  with assms show ?thesis by (simp add: updateCurrentSession_l_def)
next
  case (Some k)
  from getTopSession_l_ok [OF wellFormed_structOk [OF assms(1)]] assms(3) Some
  obtain x where x: "findSession (mSessionMap s) k = Some x" by auto
  from wellFormed_lost_noRunning [OF assms(1,2)] have nr: "noRunning s" .
  with x have "state x \<noteq> RUNNING" by (auto simp: noRunning_def)
  with assms Some x pauseCurrent_noRunning [OF nr assms(1)] show ?thesis
    by (simp add: updateCurrentSession_l_def startTop_def)
qed

lemma updateCurrentSession_l_start:
  assumes "wellFormed s" "\<not> mResourceLost s" "noRunning s"
    "getTopSession_l s = Inr (Some k)" "findSession (mSessionMap s) k = Some x"
  shows "updateCurrentSession_l env s
         = Inr ((setState k RUNNING (emit (startEvent env x) s))\<lparr>mCurrentSession := Some k\<rparr>)"
proof -
  from assms(3,5) have "state x \<noteq> RUNNING" by (auto simp: noRunning_def)
  then have "state x = NOT_STARTED \<or> state x = PAUSED" by (cases "state x") auto
  with assms pauseCurrent_noRunning [OF assms(3,1)] show ?thesis
    by (auto simp: updateCurrentSession_l_def startTop_def startEvent_def)
qed

lemma pauseCurrent_effects:
  "pauseCurrent s = Inr s1 \<Longrightarrow> \<exists>evs. effects s1 = effects s @ evs"
  by (auto simp: pauseCurrent_def split: option.splits if_splits)

lemma startTop_effects:
  "startTop env k s = Inr s1 \<Longrightarrow> \<exists>evs. effects s1 = effects s @ evs"
  by (auto simp: startTop_def split: option.splits if_splits)

lemma updateCurrentSession_l_effects:
  assumes "updateCurrentSession_l env s = Inr s'"
  shows "\<exists>evs. effects s' = effects s @ evs"
proof -
  { fix k s1 s2 assume "pauseCurrent s = Inr s1" "startTop env k s1 = Inr s2"
    with pauseCurrent_effects [of s s1] startTop_effects [of env k s1 s2]
    have "\<exists>evs. effects s2 = effects s @ evs" by auto }
  with assms show ?thesis
    by (auto simp: updateCurrentSession_l_def split: sum.splits option.splits if_splits)
qed

lemma updateCurrentSession_l_running:
  assumes w: "wellFormed s" and u: "updateCurrentSession_l env s = Inr s'"
    and a: "\<not> mResourceLost s" and c: "mCurrentSession s' = Some k"
  shows "\<exists>x. findSession (mSessionMap s') k = Some x \<and> state x = RUNNING"
proof -
  from getTopSession_l_ok [OF wellFormed_structOk [OF w]] obtain r where
    r: "getTopSession_l s = Inr r" "\<forall>k. r = Some k \<longrightarrow> findSession (mSessionMap s) k \<noteq> None"
    by blast
  show ?thesis
  proof (cases r)
    case None
    with r u have "s' = s\<lparr>mCurrentSession := None\<rparr>" by (simp add: updateCurrentSession_l_def)
    with c show ?thesis by simp
  next
    case (Some t)
    with r obtain xt where xt: "findSession (mSessionMap s) t = Some xt" by auto
    show ?thesis
    proof (cases "Some t \<noteq> mCurrentSession s \<or> state xt \<noteq> RUNNING")
      case False
      with r Some xt u c show ?thesis by (auto simp: updateCurrentSession_l_def)
    next
      case True
      from w have ci: "currentInv (mSessionMap s) (mCurrentSession s) (mResourceLost s)"
        by (simp add: wellFormed_def)
      from pauseCurrent_spec [OF ci] obtain s1 where p: "pauseCurrent s = Inr s1"
        and s1: "\<not> mResourceLost s1" "findSession (mSessionMap s1) t \<noteq> None"
        using a xt by (elim disjE exE conjE) (simp_all add: setState_def)
      then obtain x1 where x1: "findSession (mSessionMap s1) t = Some x1" by auto
      from startTop_spec [OF s1(1) x1, of env] obtain s1' where
        st: "startTop env t s1 = Inr (setState t RUNNING s1')"
        and alt: "s1' = s1 \<or> (\<exists>e. s1' = emit e s1)" by blast
      from True r Some xt p st u have "s' = (setState t RUNNING s1')\<lparr>mCurrentSession := Some t\<rparr>"
        by (simp add: updateCurrentSession_l_def)
      with c alt x1 show ?thesis
        by (auto simp: setState_def)
    qed
  qed
qed

lemma findSession_filter_keys:
  "findSession (filter (\<lambda>e. fst e \<notin> A) m) k = (if k \<in> A then None else findSession m k)"
  by (induction m) (auto simp: findSession_def)

lemma cancelAll_append:
  "cancelAll env (ks1 @ ks2) s
   = (case cancelAll env ks1 s of Inl f \<Rightarrow> Inl f | Inr s1 \<Rightarrow> cancelAll env ks2 s1)"
  by (induction ks1 arbitrary: s) (auto split: sum.splits)

lemma submit_example:
  "submit exampleEnv 1 1 100 exampleRequest 7 initController = Inr (True, oneRunning)"
  by code_simp

lemma reachable_oneRunning: "reachable oneRunning"
  using reachable.submit [OF reachable.init submit_example] .

lemma filter_running_le_1:
  assumes "distinct (map fst m)" "\<forall>e \<in> set m. P (snd e) \<longrightarrow> fst e = c"
  shows "length (filter (\<lambda>e. P (snd e)) m) \<le> 1"
proof -
  have d: "distinct (map fst (filter (\<lambda>e. P (snd e)) m))"
    using assms(1) by (simp add: distinct_map_filter)
  then have "length (filter (\<lambda>e. P (snd e)) m) = card (fst ` set (filter (\<lambda>e. P (snd e)) m))"
    by (rule length_eq_card_keys)
  also have "\<dots> \<le> card {c}"
    using assms(2) by (intro card_mono) auto
  finally show ?thesis by simp
qed

text \<open>C1: in every state reachable through the entry points, at most one session of the
  registry is in state \<open>RUNNING\<close>: at most one entry of \<open>mSessionMap\<close> is, and two
  keys whose sessions are running are the same key.\<close>

theorem at_most_one_running:
  assumes "reachable s"
  shows "length (filter (\<lambda>e. state (snd e) = RUNNING) (mSessionMap s)) \<le> 1
       \<and> (\<forall>k1 k2 x1 x2. findSession (mSessionMap s) k1 = Some x1 \<and> state x1 = RUNNING
             \<and> findSession (mSessionMap s) k2 = Some x2 \<and> state x2 = RUNNING \<longrightarrow> k1 = k2)"
proof -
  from reachable_schedInv [OF assms] have dm: "distinct (map fst (mSessionMap s))"
    and ci: "currentInv (mSessionMap s) (mCurrentSession s) (mResourceLost s)"
    by (simp_all add: schedInv_def wellFormed_def structOk_def structInv_def)
  from ci have run: "mCurrentSession s = Some k"
    if "findSession (mSessionMap s) k = Some x" "state x = RUNNING" for k x
    using that by (auto simp: currentInv_def)
  have "\<exists>c. \<forall>e \<in> set (mSessionMap s). state (snd e) = RUNNING \<longrightarrow> fst e = c"
  proof (cases "mCurrentSession s")
    case None
    { fix e assume "e \<in> set (mSessionMap s)" "state (snd e) = RUNNING"
      with dm have "findSession (mSessionMap s) (fst e) = Some (snd e)"
        by (simp add: findSession_def)
      from run [OF this \<open>state (snd e) = RUNNING\<close>] None have False by simp }
    then show ?thesis by blast
  next
    case (Some c)
    { fix e assume "e \<in> set (mSessionMap s)" "state (snd e) = RUNNING"
      with dm have "findSession (mSessionMap s) (fst e) = Some (snd e)"
        by (simp add: findSession_def)
      from run [OF this \<open>state (snd e) = RUNNING\<close>] Some have "fst e = c" by simp }
    then show ?thesis by blast
  qed
  then obtain c where "\<forall>e \<in> set (mSessionMap s). state (snd e) = RUNNING \<longrightarrow> fst e = c" ..
  from filter_running_le_1 [OF dm, of "\<lambda>x. state x = RUNNING", OF this]
  have "length (filter (\<lambda>e. state (snd e) = RUNNING) (mSessionMap s)) \<le> 1" .
  moreover have "k1 = k2" if "findSession (mSessionMap s) k1 = Some x1" "state x1 = RUNNING"
    "findSession (mSessionMap s) k2 = Some x2" "state x2 = RUNNING" for k1 k2 x1 x2
    using run [OF that(1,2)] run [OF that(3,4)] by simp
  ultimately show ?thesis by blast
qed

theorem at_most_one_running_witness:
  "reachable oneRunning
   \<and> length (filter (\<lambda>e. state (snd e) = RUNNING) (mSessionMap oneRunning)) = 1"
proof -
  from at_most_one_running [OF reachable_oneRunning]
  have "length (filter (\<lambda>e. state (snd e) = RUNNING) (mSessionMap oneRunning)) \<le> 1" by blast
  moreover have "length (filter (\<lambda>e. state (snd e) = RUNNING) (mSessionMap oneRunning)) \<ge> 1"
    by (simp add: oneRunning_def)
  ultimately show ?thesis using reachable_oneRunning by simp
qed

text \<open>C2: in every reachable state the current-session pointer is null or is the top
  session, the first key in the queue of the first uid of \<open>mUidSortedList\<close>; it is what
  \<open>getTopSession_l\<close> returns (so it is null only when the registry is empty).\<close>

theorem current_is_null_or_top:
  assumes "reachable s"
  shows "(mCurrentSession s = None
          \<or> (\<exists>topUid rest k ks. mUidSortedList s = topUid # rest
                \<and> map_of (mSessionQueues s) topUid = Some (k # ks)
                \<and> mCurrentSession s = Some k))
       \<and> getTopSession_l s = Inr (mCurrentSession s)"
proof -
  from reachable_schedInv [OF assms] have si: "structInv (mSessionMap s) (mSessionQueues s) (mUidSortedList s)"
    and top: "getTopSession_l s = Inr (mCurrentSession s)"
    by (simp_all add: schedInv_def wellFormed_def structOk_def)
  show ?thesis
  proof (cases "mSessionMap s = []")
    case True
    with top show ?thesis by (simp add: getTopSession_l_def)
  next
    case False
    from top_exists [OF si False] obtain topUid rest k ks x where
      t: "mUidSortedList s = topUid # rest" "map_of (mSessionQueues s) topUid = Some (k # ks)"
      "findSession (mSessionMap s) k = Some x" by blast
    with False have "getTopSession_l s = Inr (Some k)"
      by (simp add: getTopSession_l_def queueAt_def)
    with top t show ?thesis by auto
  qed
qed

theorem current_is_null_or_top_witness:
  "reachable oneRunning \<and> mUidSortedList oneRunning = [100, OFFLINE_UID]
   \<and> map_of (mSessionQueues oneRunning) 100 = Some [(1, 1)]
   \<and> mCurrentSession oneRunning = Some (1, 1)
   \<and> getTopSession_l oneRunning = Inr (Some (1, 1))"
  using current_is_null_or_top [OF reachable_oneRunning] reachable_oneRunning
  by (simp add: oneRunning_def OFFLINE_UID_def)

text \<open>C10: in every reachable state with a non-empty registry the first uid of
  \<open>mUidSortedList\<close> has a non-empty queue, whose first key \<open>getTopSession_l\<close> returns:
  the offline uid is last in the list, and a real-time uid in the list has a non-empty
  queue. The entry points that call \<open>getTopSession_l\<close> (on the states they pass through)
  return without a fault.\<close>

theorem top_queue_nonempty:
  assumes "reachable s"
  shows "(mSessionMap s \<noteq> [] \<longrightarrow>
            (\<exists>topUid rest k ks. mUidSortedList s = topUid # rest
               \<and> map_of (mSessionQueues s) topUid = Some (k # ks)
               \<and> getTopSession_l s = Inr (Some k)))
       \<and> mUidSortedList s \<noteq> [] \<and> last (mUidSortedList s) = OFFLINE_UID
       \<and> (\<forall>u \<in> set (mUidSortedList s). u \<noteq> OFFLINE_UID \<longrightarrow>
             (\<exists>k ks. map_of (mSessionQueues s) u = Some (k # ks)))
       \<and> (\<exists>r. submit env c i callerUid req cb s = Inr r)
       \<and> (\<exists>r. cancel env c i s = Inr r)
       \<and> (\<exists>r. onFinish env c i s = Inr r)
       \<and> (\<exists>r. onError env c i err s = Inr r)
       \<and> (\<exists>r. onTopUidsChanged env uids s = Inr r)
       \<and> (\<exists>r. onResourceAvailable env s = Inr r)"
proof -
  from reachable_schedInv [OF assms] have inv: "schedInv s" .
  then have w: "wellFormed s" by (rule schedInv_wellFormed)
  then have si: "structInv (mSessionMap s) (mSessionQueues s) (mUidSortedList s)"
    by (simp add: wellFormed_def structOk_def)
  then have ul: "uidListOk (mUidSortedList s) (mSessionQueues s)"
    and qo: "queuesOk (mSessionMap s) (mSessionQueues s)"
    by (simp_all add: structInv_def)
  have 1: "mSessionMap s \<noteq> [] \<longrightarrow>
            (\<exists>topUid rest k ks. mUidSortedList s = topUid # rest
               \<and> map_of (mSessionQueues s) topUid = Some (k # ks)
               \<and> getTopSession_l s = Inr (Some k))"
  proof
    assume ne: "mSessionMap s \<noteq> []"
    from top_exists [OF si ne] obtain topUid rest k ks x where
      t: "mUidSortedList s = topUid # rest" "map_of (mSessionQueues s) topUid = Some (k # ks)"
      "findSession (mSessionMap s) k = Some x" by blast
    with ne have "getTopSession_l s = Inr (Some k)"
      by (simp add: getTopSession_l_def queueAt_def)
    with t show "\<exists>topUid rest k ks. mUidSortedList s = topUid # rest
               \<and> map_of (mSessionQueues s) topUid = Some (k # ks)
               \<and> getTopSession_l s = Inr (Some k)" by blast
  qed
  from ul have 2: "mUidSortedList s \<noteq> [] \<and> last (mUidSortedList s) = OFFLINE_UID"
    by (simp add: uidListOk_def)
  have 3: "\<forall>u \<in> set (mUidSortedList s). u \<noteq> OFFLINE_UID \<longrightarrow>
             (\<exists>k ks. map_of (mSessionQueues s) u = Some (k # ks))"
  proof (intro ballI impI)
    fix u assume "u \<in> set (mUidSortedList s)" "u \<noteq> OFFLINE_UID"
    with ul obtain q where q: "map_of (mSessionQueues s) u = Some q"
      by (auto simp: uidListOk_def)
    with qo \<open>u \<noteq> OFFLINE_UID\<close> have "q \<noteq> []" by (auto simp: queuesOk_def)
    with q show "\<exists>k ks. map_of (mSessionQueues s) u = Some (k # ks)"
      by (cases q) auto
  qed
  have 4: "\<exists>r. submit env c i callerUid req cb s = Inr r"
  proof (cases "findSession (mSessionMap s) (c, i)")
    case None
    from submit_spec [OF w None, of env callerUid req cb] show ?thesis by blast
  next
    case (Some x)
    then show ?thesis by (simp add: submit_duplicate)
  qed
  have 5: "\<exists>r. cancel env c i s = Inr r"
  proof (cases "i < 0 \<or> findSession (mSessionMap s) (c, i) \<noteq> None")
    case True
    from cancel_spec [OF w True, of env] show ?thesis by blast
  next
    case False
    then show ?thesis by (simp add: cancel_unknown)
  qed
  from onFinish_schedInv [OF inv, of env c i] have 6: "\<exists>r. onFinish env c i s = Inr r" by blast
  from onError_schedInv [OF inv, of env c i err] have 7: "\<exists>r. onError env c i err s = Inr r"
    by blast
  from onTopUidsChanged_spec [OF inv, of env uids]
  have 8: "\<exists>r. onTopUidsChanged env uids s = Inr r" by blast
  from onResourceAvailable_spec [OF inv, of env]
  have 9: "\<exists>r. onResourceAvailable env s = Inr r" by blast
  from 1 2 3 4 5 6 7 8 9 show ?thesis by blast
qed

theorem top_queue_nonempty_witness:
  "reachable oneRunning \<and> mSessionMap oneRunning \<noteq> []
   \<and> mUidSortedList oneRunning = [100, OFFLINE_UID]
   \<and> map_of (mSessionQueues oneRunning) 100 = Some [(1, 1)]
   \<and> getTopSession_l oneRunning = Inr (Some (1, 1))
   \<and> (\<exists>r. onFinish exampleEnv 1 1 oneRunning = Inr r)"
  using top_queue_nonempty [OF reachable_oneRunning, of exampleEnv 1 1 0 exampleRequest 0 0 "{}"]
    reachable_oneRunning
  by (simp add: oneRunning_def OFFLINE_UID_def)

lemma reachable_lostIdle: "reachable lostIdle"
proof -
  have "onResourceLost exampleEnv initController = Inr lostIdle" by code_simp
  from reachable.onResourceLost [OF reachable.init this] show ?thesis .
qed

lemma newSession_simps [simp]:
  "key (newSession k u req cb) = k" "uid (newSession k u req cb) = u"
  "state (newSession k u req cb) = NOT_STARTED" "request (newSession k u req cb) = req"
  "callback (newSession k u req cb) = cb"
  by (simp_all add: newSession_def)

lemma insertSession_not_Nil [simp]: "insertSession k x m \<noteq> []"
  by (cases m) (auto split: if_splits)

lemma onResourceAvailable_starts:
  assumes inv: "schedInv s" and lost: "mResourceLost s" and cur: "mCurrentSession s = Some k"
    and y: "findSession (mSessionMap s) k = Some y"
  shows "onResourceAvailable env s
         = Inr ((setState k RUNNING (emit (startEvent env y) (s\<lparr>mResourceLost := False\<rparr>)))
                 \<lparr>mCurrentSession := Some k\<rparr>)"
proof -
  let ?s0 = "s\<lparr>mResourceLost := False\<rparr>"
  from inv have w: "wellFormed s" and top: "getTopSession_l s = Inr (mCurrentSession s)"
    by (simp_all add: schedInv_def)
  from w have w0: "wellFormed ?s0" by (auto simp: wellFormed_def currentInv_def)
  from wellFormed_lost_noRunning [OF w lost] have nr: "noRunning ?s0" by (simp add: noRunning_def)
  from top cur have t0: "getTopSession_l ?s0 = Inr (Some k)" by simp
  from y have y0: "findSession (mSessionMap ?s0) k = Some y" by simp
  let ?s' = "(setState k RUNNING (emit (startEvent env y) ?s0))\<lparr>mCurrentSession := Some k\<rparr>"
  from updateCurrentSession_l_start [OF w0 _ nr t0 y0, of env]
  have u: "updateCurrentSession_l env ?s0 = Inr ?s'" by simp
  from update_validated [OF w0, of env] u have "validated ?s' = Inr ?s'" by auto
  with lost u show ?thesis by (simp add: onResourceAvailable_def)
qed

text \<open>C6: a session submitted while the resource-lost flag is set stays in
  \<open>NOT_STARTED\<close> and the transcoder is not called (the only call \<open>submit\<close> may make is
  the registration of a new uid with the uid policy); the current-session pointer is
  nevertheless the top session, and a later \<open>onResourceAvailable\<close> starts that session
  when it was never started and resumes it otherwise, and marks it \<open>RUNNING\<close>.\<close>

theorem submit_while_resource_lost:
  assumes "reachable s" "mResourceLost s" "findSession (mSessionMap s) (c, i) = None"
  shows "\<exists>s' k y. submit env c i callerUid req cb s = Inr (True, s')
      \<and> (\<exists>x. findSession (mSessionMap s') (c, i) = Some x \<and> state x = NOT_STARTED)
      \<and> (effects s' = effects s
           \<or> effects s' = effects s @ [RegisterMonitorUid (sessionUid callerUid req)])
      \<and> getTopSession_l s' = Inr (Some k) \<and> mCurrentSession s' = Some k
      \<and> findSession (mSessionMap s') k = Some y
      \<and> onResourceAvailable env' s'
          = Inr ((setState k RUNNING (emit (startEvent env' y) (s'\<lparr>mResourceLost := False\<rparr>)))
                   \<lparr>mCurrentSession := Some k\<rparr>)"
proof -
  from reachable_schedInv [OF assms(1)] have w: "wellFormed s" by (rule schedInv_wellFormed)
  from submit_spec [OF w assms(3), of env callerUid req cb] obtain s2 s' where
    s: "submit env c i callerUid req cb s = Inr (True, s')" "schedInv s'"
      "updateCurrentSession_l env s2 = Inr s'" "wellFormed s2"
      "mSessionMap s2 = insertSession (c, i)
                (newSession (c, i) (sessionUid callerUid req) req cb) (mSessionMap s)"
      "mResourceLost s2 = mResourceLost s"
      "effects s2 = effects s
               \<or> effects s2 = effects s @ [RegisterMonitorUid (sessionUid callerUid req)]"
    by blast
  from getTopSession_l_ok [OF wellFormed_structOk [OF s(4)]] obtain r where
    r: "getTopSession_l s2 = Inr r" "r = None \<longleftrightarrow> mSessionMap s2 = []" by blast
  with s(5) obtain k where k: "r = Some k" by (cases r) auto
  from s(6) assms(2) have "mResourceLost s2" by simp
  from updateCurrentSession_l_lost [OF s(4) this r(1), of env] s(3) k
  have s': "s' = s2\<lparr>mCurrentSession := Some k\<rparr>" by simp
  from s(2) s' have top: "getTopSession_l s' = Inr (Some k)" "mCurrentSession s' = Some k"
    by (simp_all add: schedInv_def)
  from getTopSession_l_ok [OF wellFormed_structOk [OF schedInv_wellFormed [OF s(2)]]] top(1)
  obtain y where y: "findSession (mSessionMap s') k = Some y" by auto
  from s' \<open>mResourceLost s2\<close> have "mResourceLost s'" by simp
  from onResourceAvailable_starts [OF s(2) this top(2) y, of env']
  have "onResourceAvailable env' s'
          = Inr ((setState k RUNNING (emit (startEvent env' y) (s'\<lparr>mResourceLost := False\<rparr>)))
                   \<lparr>mCurrentSession := Some k\<rparr>)" .
  moreover from s' s(5)
  have "\<exists>x. findSession (mSessionMap s') (c, i) = Some x \<and> state x = NOT_STARTED"
    by simp
  moreover from s' s(7) have "effects s' = effects s
           \<or> effects s' = effects s @ [RegisterMonitorUid (sessionUid callerUid req)]" by simp
  ultimately show ?thesis using s(1) top y by blast
qed

theorem submit_while_resource_lost_witness:
  "reachable lostIdle \<and> mResourceLost lostIdle \<and> findSession (mSessionMap lostIdle) (1, 1) = None
   \<and> submit exampleEnv 1 1 100 exampleRequest 7 lostIdle = Inr (True, lostSubmitted)
   \<and> (\<exists>k y. getTopSession_l lostSubmitted = Inr (Some k) \<and> mCurrentSession lostSubmitted = Some k
         \<and> findSession (mSessionMap lostSubmitted) k = Some y
         \<and> onResourceAvailable exampleEnv lostSubmitted
             = Inr ((setState k RUNNING (emit (startEvent exampleEnv y)
                       (lostSubmitted\<lparr>mResourceLost := False\<rparr>)))\<lparr>mCurrentSession := Some k\<rparr>))"
proof -
  have l: "mResourceLost lostIdle" by (simp add: lostIdle_def)
  have n: "findSession (mSessionMap lostIdle) (1, 1) = None"
    by (simp add: lostIdle_def initController_def findSession_def)
  have e: "submit exampleEnv 1 1 100 exampleRequest 7 lostIdle = Inr (True, lostSubmitted)"
    by code_simp
  from submit_while_resource_lost [OF reachable_lostIdle l n,
      of exampleEnv 100 exampleRequest 7 exampleEnv] e reachable_lostIdle l n
  show ?thesis by auto
qed

text \<open>C7: \<open>cancel\<close> with a negative session id, from a reachable state, removes from the
  registry (and from the queues) exactly the sessions of that client whose uid is not the
  offline uid; the client's offline sessions stay registered. A removed session that was
  ever started gets \<open>stop\<close> first: in the loop over \<open>sessionsToRemove\<close> its iteration
  begins in a state where it is still registered, calls \<open>stop\<close> there and removes it
  after that.\<close>

theorem cancel_all_realtime_sessions:
  assumes "reachable s" "i < 0"
  shows "\<exists>s1 s'. cancel env c i s = Inr (True, s')
     \<and> (\<forall>k. findSession (mSessionMap s') k \<noteq> None \<longleftrightarrow>
            (\<exists>x. findSession (mSessionMap s) k = Some x \<and> \<not> (fst k = c \<and> uid x \<noteq> OFFLINE_UID)))
     \<and> (\<forall>k x. findSession (mSessionMap s) k = Some x \<and> fst k = c \<and> uid x = OFFLINE_UID \<longrightarrow>
            (\<exists>x'. findSession (mSessionMap s') k = Some x' \<and> uid x' = OFFLINE_UID))
     \<and> (\<forall>k \<in> set (sessionsToRemove c s). \<forall>u. k \<notin> set (queueAt (mSessionQueues s') u))
     \<and> cancelAll env (sessionsToRemove c s) s = Inr s1 \<and> updateCurrentSession_l env s1 = Inr s'
     \<and> (\<forall>k x. findSession (mSessionMap s) k = Some x \<and> fst k = c \<and> uid x \<noteq> OFFLINE_UID
               \<and> state x \<noteq> NOT_STARTED \<longrightarrow>
          (\<exists>ks1 ks2 sa sb. sessionsToRemove c s = ks1 @ k # ks2 \<and> cancelAll env ks1 s = Inr sa
             \<and> findSession (mSessionMap sa) k = Some x
             \<and> cancelOne env k sa = removeSession_l env k (emit (TranscoderStop (fst k) (snd k)) sa)
             \<and> removeSession_l env k (emit (TranscoderStop (fst k) (snd k)) sa) = Inr sb
             \<and> findSession (mSessionMap sb) k = None
             \<and> cancelAll env ks2 sb = Inr s1)
          \<and> TranscoderStop (fst k) (snd k) \<in> set (drop (length (effects s)) (effects s')))"
proof -
  let ?ks = "sessionsToRemove c s"
  from reachable_schedInv [OF assms(1)] have w: "wellFormed s" by (rule schedInv_wellFormed)
  then have dm: "distinct (map fst (mSessionMap s))"
    by (simp add: wellFormed_def structOk_def structInv_def)
  note ks = sessionsToRemove_props [OF dm, where c = c]
  from assms(2) have ck: "cancelKeys c i s = ?ks" by (simp add: cancelKeys_def)
  from cancel_spec [OF w, where i = i and c = c and env = env] assms(2) obtain s1 s' evs where
    r: "cancel env c i s = Inr (True, s')" "cancelAll env ?ks s = Inr s1"
      "updateCurrentSession_l env s1 = Inr s'" "wellFormed s1" "sameSessions s1 s'"
      "mSessionMap s1 = filter (\<lambda>e. fst e \<notin> set ?ks) (mSessionMap s)"
      "\<forall>k \<in> set ?ks. \<forall>u. k \<notin> set (queueAt (mSessionQueues s1) u)"
      "effects s1 = effects s @ evs"
      "\<forall>k \<in> set ?ks. \<forall>x. findSession (mSessionMap s) k = Some x \<and> state x \<noteq> NOT_STARTED
                 \<longrightarrow> TranscoderStop (fst k) (snd k) \<in> set evs"
    unfolding ck by blast
  have f1: "findSession (mSessionMap s1) k = (if k \<in> set ?ks then None else findSession (mSessionMap s) k)"
    for k by (simp add: r(6) findSession_filter_keys)
  have 1: "\<forall>k. findSession (mSessionMap s') k \<noteq> None \<longleftrightarrow>
            (\<exists>x. findSession (mSessionMap s) k = Some x \<and> \<not> (fst k = c \<and> uid x \<noteq> OFFLINE_UID))"
  proof
    fix k
    have "findSession (mSessionMap s') k \<noteq> None \<longleftrightarrow> findSession (mSessionMap s1) k \<noteq> None"
      using sameSessions_dom [OF r(5), of k] by simp
    also have "\<dots> \<longleftrightarrow> (\<exists>x. findSession (mSessionMap s) k = Some x
        \<and> \<not> (fst k = c \<and> uid x \<noteq> OFFLINE_UID))"
      using ks(2) [of k] by (auto simp: f1)
    finally show "findSession (mSessionMap s') k \<noteq> None \<longleftrightarrow>
            (\<exists>x. findSession (mSessionMap s) k = Some x \<and> \<not> (fst k = c \<and> uid x \<noteq> OFFLINE_UID))" .
  qed
  have 2: "\<forall>k x. findSession (mSessionMap s) k = Some x \<and> fst k = c \<and> uid x = OFFLINE_UID \<longrightarrow>
            (\<exists>x'. findSession (mSessionMap s') k = Some x' \<and> uid x' = OFFLINE_UID)"
  proof (intro allI impI)
    fix k x assume a: "findSession (mSessionMap s) k = Some x \<and> fst k = c \<and> uid x = OFFLINE_UID"
    with ks(2) [of k] have "k \<notin> set ?ks" by auto
    with a have x1: "findSession (mSessionMap s1) k = Some x" by (simp add: f1)
    with sameSessions_dom [OF r(5), of k] obtain y where y: "findSession (mSessionMap s') k = Some y"
      by auto
    from sameSessions_find [OF r(5) y] x1 a have "uid y = OFFLINE_UID" by auto
    with y show "\<exists>x'. findSession (mSessionMap s') k = Some x' \<and> uid x' = OFFLINE_UID" by blast
  qed
  from r(5) r(7) have 3: "\<forall>k \<in> set ?ks. \<forall>u. k \<notin> set (queueAt (mSessionQueues s') u)"
    by (simp add: sameSessions_def)
  from updateCurrentSession_l_effects [OF r(3)] obtain evs' where
    evs': "effects s' = effects s1 @ evs'" ..
  have 4: "(\<exists>ks1 ks2 sa sb. ?ks = ks1 @ k # ks2 \<and> cancelAll env ks1 s = Inr sa
             \<and> findSession (mSessionMap sa) k = Some x
             \<and> cancelOne env k sa = removeSession_l env k (emit (TranscoderStop (fst k) (snd k)) sa)
             \<and> removeSession_l env k (emit (TranscoderStop (fst k) (snd k)) sa) = Inr sb
             \<and> findSession (mSessionMap sb) k = None
             \<and> cancelAll env ks2 sb = Inr s1)
          \<and> TranscoderStop (fst k) (snd k) \<in> set (drop (length (effects s)) (effects s'))"
    if a: "findSession (mSessionMap s) k = Some x \<and> fst k = c \<and> uid x \<noteq> OFFLINE_UID
               \<and> state x \<noteq> NOT_STARTED" for k x
  proof -
    from a ks(2) [of k] have kin: "k \<in> set ?ks" by auto
    then obtain ks1 ks2 where sp: "?ks = ks1 @ k # ks2" by (auto dest: split_list)
    with ks(1) have d1: "distinct ks1" and nk: "k \<notin> set ks1" by auto
    from sp ks(2) have p1: "\<forall>k' \<in> set ks1. findSession (mSessionMap s) k' \<noteq> None"
      by (metis UnCI option.distinct(1) set_append)
    from cancelAll_spec [OF w d1 p1, of env] obtain sa where
      sa: "cancelAll env ks1 s = Inr sa" "wellFormed sa"
        "mSessionMap sa = filter (\<lambda>e. fst e \<notin> set ks1) (mSessionMap s)" by blast
    from sa(3) nk a have xa: "findSession (mSessionMap sa) k = Some x"
      by (simp add: findSession_filter_keys)
    from cancelOne_spec [OF sa(2) xa, of env] a obtain sb where
      sb: "cancelOne env k sa = Inr sb"
        "removeSession_l env k (emit (TranscoderStop (fst k) (snd k)) sa) = Inr sb"
        "mSessionMap sb = eraseSession k (mSessionMap sa)" by auto
    from r(2) sp sa(1) sb(1) have "cancelAll env ks2 sb = Inr s1"
      by (simp add: cancelAll_append)
    moreover from sb(3) have "findSession (mSessionMap sb) k = None" by simp
    moreover from r(9) kin a have "TranscoderStop (fst k) (snd k) \<in> set evs" by blast
    with r(8) evs' have "TranscoderStop (fst k) (snd k) \<in> set (drop (length (effects s)) (effects s'))"
      by simp
    ultimately show ?thesis using sp sa(1) xa sb(1,2) by (metis)
  qed
  from r(1,2,3) 1 2 3 4 show ?thesis by blast
qed

lemma reachable_threeSessions: "reachable threeSessions"
proof -
  have 1: "submit exampleEnv 1 2 200 exampleRequest 7 oneRunning = Inr (True, twoSessions)"
    by code_simp
  have 2: "submit exampleEnv 1 3 300 offlineRequest 7 twoSessions = Inr (True, threeSessions)"
    by code_simp
  from reachable.submit [OF reachable.submit [OF reachable_oneRunning 1] 2]
  show ?thesis .
qed

theorem cancel_all_realtime_sessions_witness:
  "reachable threeSessions \<and> (- 1 :: int) < 0
   \<and> cancel exampleEnv 1 (- 1) threeSessions = Inr (True, offlineLeft)
   \<and> sessionsToRemove 1 threeSessions = [(1, 1), (1, 2)]
   \<and> map fst (mSessionMap offlineLeft) = [(1, 3)]
   \<and> TranscoderStop 1 1 \<in> set (drop (length (effects threeSessions)) (effects offlineLeft))"
proof -
  have e: "cancel exampleEnv 1 (- 1) threeSessions = Inr (True, offlineLeft)" by code_simp
  have x: "findSession (mSessionMap threeSessions) (1, 1)
      = Some \<lparr>key = (1, 1), uid = 100, state = RUNNING, lastProgress = 0,
                  request = exampleRequest, callback = 7\<rparr>"
    by (simp add: threeSessions_def findSession_def)
  have k: "sessionsToRemove 1 threeSessions = [(1, 1), (1, 2)]" by code_simp
  from cancel_all_realtime_sessions [OF reachable_threeSessions, of "- 1" exampleEnv 1] e
  have "\<forall>k x. findSession (mSessionMap threeSessions) k = Some x \<and> fst k = 1
             \<and> uid x \<noteq> OFFLINE_UID \<and> state x \<noteq> NOT_STARTED \<longrightarrow>
          TranscoderStop (fst k) (snd k)
            \<in> set (drop (length (effects threeSessions)) (effects offlineLeft))"
    by auto
  with x have "TranscoderStop 1 1 \<in> set (drop (length (effects threeSessions)) (effects offlineLeft))"
    by (force simp: OFFLINE_UID_def)
  with e k reachable_threeSessions show ?thesis by (simp add: offlineLeft_def)
qed

text \<open>C4, as the code has it: \<open>onFinish\<close> goes through \<open>notifyClient\<close>, which ignores the
  event for a session that is unknown or was never started. For a registered session that
  was started (running or paused), \<open>onFinish\<close> calls \<open>onTranscodingFinished\<close> on the
  client's callback when that callback is still alive, removes the session (and no other)
  from the registry and from its queue, and re-evaluates the current session: the pointer
  is the top session, which is running unless the resource is lost.\<close>

theorem onFinish_of_started_session:
  assumes "reachable s"
  shows "case findSession (mSessionMap s) (c, i) of
           None \<Rightarrow> onFinish env c i s = Inr s
         | Some x \<Rightarrow>
             if state x = NOT_STARTED then onFinish env c i s = Inr s
             else (\<exists>s0 s1 s' evs. onFinish env c i s = Inr s'
                 \<and> s0 = callClient env x (\<lambda>cb. OnTranscodingFinished cb i) s
                 \<and> effects s0 = effects s @ (if lockCallback env (callback x)
                        then [OnTranscodingFinished (callback x) i] else [])
                 \<and> removeSession_l env (c, i) s0 = Inr s1
                 \<and> updateCurrentSession_l env s1 = Inr s'
                 \<and> effects s' = effects s0 @ evs
                 \<and> (\<forall>k. findSession (mSessionMap s') k \<noteq> None \<longleftrightarrow>
                        k \<noteq> (c, i) \<and> findSession (mSessionMap s) k \<noteq> None)
                 \<and> (\<forall>u. (c, i) \<notin> set (queueAt (mSessionQueues s') u))
                 \<and> getTopSession_l s' = Inr (mCurrentSession s')
                 \<and> (\<not> mResourceLost s \<longrightarrow> (\<forall>k. mCurrentSession s' = Some k \<longrightarrow>
                        (\<exists>y. findSession (mSessionMap s') k = Some y \<and> state y = RUNNING))))"
proof (cases "findSession (mSessionMap s) (c, i)")
  case None
  then show ?thesis by (simp add: onFinish_def notifyClient_def)
next
  case (Some x)
  show ?thesis
  proof (cases "state x = NOT_STARTED")
    case True
    with Some show ?thesis by (simp add: onFinish_def notifyClient_def)
  next
    case False
    let ?s0 = "callClient env x (\<lambda>cb. OnTranscodingFinished cb i) s"
    from reachable_schedInv [OF assms] have w0: "wellFormed ?s0"
      by (simp add: schedInv_def)
    from Some have x0: "findSession (mSessionMap ?s0) (c, i) = Some x" by simp
    from removeAndUpdate_spec [OF w0 x0, of env] obtain s1 s' where
      r: "removeAndUpdate env (c, i) ?s0 = Inr s'" "schedInv s'"
        "removeSession_l env (c, i) ?s0 = Inr s1" "updateCurrentSession_l env s1 = Inr s'"
        "wellFormed s1" "sameSessions s1 s'"
        "mSessionMap s1 = eraseSession (c, i) (mSessionMap ?s0)"
        "mResourceLost s1 = mResourceLost ?s0"
        "\<forall>u. (c, i) \<notin> set (queueAt (mSessionQueues s1) u)" by blast
    from Some False r(1) have 1: "onFinish env c i s = Inr s'"
      by (simp add: onFinish_def notifyClient_def)
    have 2: "effects ?s0 = effects s @ (if lockCallback env (callback x)
                        then [OnTranscodingFinished (callback x) i] else [])"
      by (simp add: callClient_def lock_def)
    from removeSession_l_spec [OF w0 x0, of env] r(3) obtain evs1 where
      e1: "effects s1 = effects ?s0 @ evs1" by auto
    from updateCurrentSession_l_effects [OF r(4)] obtain evs2 where
      "effects s' = effects s1 @ evs2" ..
    with e1 have 3: "effects s' = effects ?s0 @ (evs1 @ evs2)" by simp
    have 4: "\<forall>k. findSession (mSessionMap s') k \<noteq> None \<longleftrightarrow>
                        k \<noteq> (c, i) \<and> findSession (mSessionMap s) k \<noteq> None"
      using sameSessions_dom [OF r(6)] by (simp add: r(7))
    from r(6,9) have 5: "\<forall>u. (c, i) \<notin> set (queueAt (mSessionQueues s') u)"
      by (simp add: sameSessions_def)
    from r(2) have 6: "getTopSession_l s' = Inr (mCurrentSession s')"
      by (simp add: schedInv_def)
    have 7: "\<not> mResourceLost s \<longrightarrow> (\<forall>k. mCurrentSession s' = Some k \<longrightarrow>
                        (\<exists>y. findSession (mSessionMap s') k = Some y \<and> state y = RUNNING))"
      using updateCurrentSession_l_running [OF r(5,4)] r(8) by auto
    from 1 2 r(3,4) 3 4 5 6 7
    have "\<exists>s0 s1 s' evs. onFinish env c i s = Inr s'
                 \<and> s0 = callClient env x (\<lambda>cb. OnTranscodingFinished cb i) s
                 \<and> effects s0 = effects s @ (if lockCallback env (callback x)
                        then [OnTranscodingFinished (callback x) i] else [])
                 \<and> removeSession_l env (c, i) s0 = Inr s1
                 \<and> updateCurrentSession_l env s1 = Inr s'
                 \<and> effects s' = effects s0 @ evs
                 \<and> (\<forall>k. findSession (mSessionMap s') k \<noteq> None \<longleftrightarrow>
                        k \<noteq> (c, i) \<and> findSession (mSessionMap s) k \<noteq> None)
                 \<and> (\<forall>u. (c, i) \<notin> set (queueAt (mSessionQueues s') u))
                 \<and> getTopSession_l s' = Inr (mCurrentSession s')
                 \<and> (\<not> mResourceLost s \<longrightarrow> (\<forall>k. mCurrentSession s' = Some k \<longrightarrow>
                        (\<exists>y. findSession (mSessionMap s') k = Some y \<and> state y = RUNNING)))"
      by blast
    with Some False show ?thesis by simp
  qed
qed

theorem onFinish_of_started_session_witness:
  "reachable oneRunning
   \<and> onFinish exampleEnv 1 1 oneRunning
      = Inr (initController\<lparr>effects := effects oneRunning
               @ [OnTranscodingFinished 7 1, UnregisterMonitorUid 100]\<rparr>)"
proof -
  have "onFinish exampleEnv 1 1 oneRunning
      = Inr (initController\<lparr>effects := effects oneRunning
               @ [OnTranscodingFinished 7 1, UnregisterMonitorUid 100]\<rparr>)"
    by code_simp
  with onFinish_of_started_session [OF reachable_oneRunning, where c = 1 and i = 1 and env = exampleEnv]
    reachable_oneRunning show ?thesis by simp
qed

text \<open>A registered session that was never started: \<open>onFinish\<close> for it changes nothing,
  the session stays registered and its client is not called.\<close>

theorem onFinish_not_started_counterexample:
  "reachable threeSessions
   \<and> findSession (mSessionMap threeSessions) (1, 2)
       = Some \<lparr>key = (1, 2), uid = 200, state = NOT_STARTED, lastProgress = 0,
               request = exampleRequest, callback = 7\<rparr>
   \<and> onFinish exampleEnv 1 2 threeSessions = Inr threeSessions"
proof -
  have "findSession (mSessionMap threeSessions) (1, 2)
       = Some \<lparr>key = (1, 2), uid = 200, state = NOT_STARTED, lastProgress = 0,
               request = exampleRequest, callback = 7\<rparr>"
    by (simp add: threeSessions_def findSession_def)
  moreover have "onFinish exampleEnv 1 2 threeSessions = Inr threeSessions" by code_simp
  ultimately show ?thesis using reachable_threeSessions by simp
qed

subsection \<open>The message queue and the loop\<close>

lemma pushMessage_fields [simp]:
  "mStatus (pushMessage v f t) = mStatus t"
  "mStopRequested (pushMessage v f t) = mStopRequested t"
  "mEosFromEncoder (pushMessage v f t) = mEosFromEncoder t"
  "mActualOutputFormat (pushMessage v f t) = mActualOutputFormat t"
  "sinkEvents (pushMessage v f t) = sinkEvents t"
  "mAborted (mCodecMessageQueue (pushMessage v f t)) = mAborted (mCodecMessageQueue t)"
  by (simp_all add: pushMessage_def push_def)

lemma deliver_fields [simp]:
  "mStatus (deliver a t) = mStatus t"
  "mStopRequested (deliver a t) = mStopRequested t"
  "mEosFromEncoder (deliver a t) = mEosFromEncoder t"
  "mActualOutputFormat (deliver a t) = mActualOutputFormat t"
  "sinkEvents (deliver a t) = sinkEvents t"
  "mAborted (mCodecMessageQueue (deliver a t)) = mAborted (mCodecMessageQueue t)"
  by (cases a; simp add: deliver_def onAsyncInputAvailable_def onAsyncOutputAvailable_def
        onAsyncFormatChanged_def onAsyncError_def abortTranscodeLoop_def)+

lemma loopCondition_deliver [simp]: "loopCondition (deliver a t) = loopCondition t"
  by (simp add: loopCondition_def)

lemma loopCondition_queue [simp]:
  "loopCondition (t\<lparr>mCodecMessageQueue := q\<rparr>) = loopCondition t"
  by (simp add: loopCondition_def)

lemma codecMessageLoop_deliver:
  "\<forall>w. a \<noteq> Run w \<Longrightarrow> codecMessageLoop (a # rest) t = codecMessageLoop rest (deliver a t)"
  by (cases a) simp_all

lemma codecMessageLoop_append:
  "codecMessageLoop (s1 @ s2) t
   = (case codecMessageLoop s1 t of Exited t1 \<Rightarrow> Exited t1 | Waiting t1 \<Rightarrow> codecMessageLoop s2 t1)"
  by (induction s1 t rule: codecMessageLoop.induct) (auto split: option.splits)

lemma codecMessageLoop_Exited:
  "codecMessageLoop schedule t = Exited t1 \<Longrightarrow> \<not> loopCondition t1"
  by (induction schedule t rule: codecMessageLoop.induct) (auto split: option.splits if_splits)

lemma queue_updateTrackFormat [simp]:
  "mCodecMessageQueue (updateTrackFormat w f t) = mCodecMessageQueue t"
  by (simp add: updateTrackFormat_def notifyTrackFormatAvailable_def)

lemma queue_enqueueInputSample [simp]:
  "mCodecMessageQueue (enqueueInputSample w i t) = mCodecMessageQueue t"
  by (simp add: enqueueInputSample_def queueForDecode_def codecCall_def Let_def
      split: prod.splits option.splits)

lemma queue_transferBuffer [simp]:
  "mCodecMessageQueue (transferBuffer w i b t) = mCodecMessageQueue t"
  by (simp add: transferBuffer_def codecCall_def Let_def)

lemma queue_dequeueOutputSample [simp]:
  "mCodecMessageQueue (dequeueOutputSample i b t) = mCodecMessageQueue t"
  by (simp add: dequeueOutputSample_def onOutputSampleAvailable_def Let_def)

lemma queue_execute [simp]: "mCodecMessageQueue (execute w m t) = mCodecMessageQueue t"
  by (cases m) (simp_all add: execute_def codecCall_def Let_def)

lemma pop_aborted:
  "pop q = Some (m, q') \<Longrightarrow> mAborted q' = mAborted q"
  by (auto simp: pop_def split: list.splits)

lemma codecMessageLoop_not_aborted:
  "codecMessageLoop schedule t = Waiting t1 \<Longrightarrow> \<not> mAborted (mCodecMessageQueue t)
   \<Longrightarrow> \<not> mAborted (mCodecMessageQueue t1)"
proof (induction schedule t rule: codecMessageLoop.induct)
  case (1 t)
  then show ?case by simp
next
  case (2 w rest t)
  show ?case
  proof (cases "pop (mCodecMessageQueue t)")
    case None
    with 2 show ?thesis by (auto split: if_splits)
  next
    case (Some mq)
    obtain m q where mq: "mq = (m, q)" by (cases mq)
    from Some mq have "mAborted q = mAborted (mCodecMessageQueue t)" by (auto dest: pop_aborted)
    with 2 Some mq show ?thesis by (auto split: if_splits)
  qed
qed simp_all

lemma loop_after_abort:
  assumes "\<not> mAborted (mCodecMessageQueue t)"
  shows "\<exists>t1. codecMessageLoop [Abort, Run w, Run w'] t = Exited t1"
proof (cases "loopCondition t")
  case False
  then show ?thesis by simp
next
  case True
  let ?t1 = "deliver Abort t"
  from assms have p: "pop (mCodecMessageQueue ?t1)
      = Some (StopRequest, mCodecMessageQueue t)"
    by (simp add: deliver_def abortTranscodeLoop_def pushMessage_def push_def pop_def)
  have "\<not> loopCondition (execute w StopRequest (?t1\<lparr>mCodecMessageQueue := mCodecMessageQueue t\<rparr>))"
    by (simp add: execute_def loopCondition_def)
  with True p show ?thesis by simp
qed

text \<open>The loop returns once an abort has been requested and the run thread has made two
  more passes.\<close>

lemma runTranscodeLoop_returns:
  assumes "\<not> mAborted (mCodecMessageQueue t)"
  shows "\<exists>r. runTranscodeLoop (schedule @ [Abort, Run w, Run w']) t = Some r"
proof -
  let ?t0 = "pushMessage StartEncoder False (pushMessage StartDecoder False t)"
  from assms have na: "\<not> mAborted (mCodecMessageQueue ?t0)" by simp
  show ?thesis
  proof (cases "codecMessageLoop schedule ?t0")
    case (Exited t1)
    then show ?thesis by (simp add: runTranscodeLoop_def codecMessageLoop_append)
  next
    case (Waiting t1)
    from codecMessageLoop_not_aborted [OF Waiting na] loop_after_abort [of t1 w w']
    obtain t2 where "codecMessageLoop [Abort, Run w, Run w'] t1 = Exited t2" by blast
    with Waiting show ?thesis by (simp add: runTranscodeLoop_def codecMessageLoop_append)
  qed
qed

lemma finishLoop_fields [simp]:
  "mStopRequested (snd (finishLoop t)) = mStopRequested t"
  "mEosFromEncoder (snd (finishLoop t)) = mEosFromEncoder t"
  "sinkEvents (snd (finishLoop t)) = sinkEvents t"
  "mActualOutputFormat (snd (finishLoop t)) = mActualOutputFormat t"
  "mStatus (snd (finishLoop t)) = fst (finishLoop t)"
  by (simp_all add: finishLoop_def codecCall_def Let_def)

text \<open>C3: when \<open>runTranscodeLoop\<close> returns, the loop was left in a state \<open>t1\<close> whose
  condition is false. The value returned is \<open>AMEDIA_ERROR_UNKNOWN\<close> if in \<open>t1\<close> a stop was
  requested, the encoder had not reached end of stream and the recorded status was
  \<open>AMEDIA_OK\<close>; otherwise it is the status recorded in \<open>t1\<close>. It is \<open>AMEDIA_OK\<close> on clean
  completion, and only when the encoder reached end of stream with status \<open>AMEDIA_OK\<close>.\<close>

theorem runTranscodeLoop_result:
  assumes "runTranscodeLoop schedule t = Some (r, t')"
  shows "\<exists>t1. codecMessageLoop schedule
                 (pushMessage StartEncoder False (pushMessage StartDecoder False t)) = Exited t1
      \<and> (mStopRequested t1 \<or> mEosFromEncoder t1 \<or> mStatus t1 \<noteq> AMEDIA_OK)
      \<and> r = (if mStopRequested t1 \<and> \<not> mEosFromEncoder t1 \<and> mStatus t1 = AMEDIA_OK
              then AMEDIA_ERROR_UNKNOWN else mStatus t1)
      \<and> (mEosFromEncoder t1 \<and> mStatus t1 = AMEDIA_OK \<and> \<not> mStopRequested t1 \<longrightarrow> r = AMEDIA_OK)
      \<and> (r = AMEDIA_OK \<longleftrightarrow> mEosFromEncoder t1 \<and> mStatus t1 = AMEDIA_OK)
      \<and> mStatus t' = r \<and> mStopRequested t' = mStopRequested t1
      \<and> mEosFromEncoder t' = mEosFromEncoder t1"
proof -
  let ?t0 = "pushMessage StartEncoder False (pushMessage StartDecoder False t)"
  from assms obtain t1 where l: "codecMessageLoop schedule ?t0 = Exited t1"
    and f: "finishLoop t1 = (r, t')"
    by (auto simp: runTranscodeLoop_def split: LoopOutcome.splits)
  from codecMessageLoop_Exited [OF l]
  have c: "mStopRequested t1 \<or> mEosFromEncoder t1 \<or> mStatus t1 \<noteq> AMEDIA_OK"
    by (auto simp: loopCondition_def)
  from f have r: "r = (if mStopRequested t1 \<and> \<not> mEosFromEncoder t1 \<and> mStatus t1 = AMEDIA_OK
              then AMEDIA_ERROR_UNKNOWN else mStatus t1)"
    by (auto simp: finishLoop_def codecCall_def Let_def split: if_splits)
  from f have t': "mStatus t' = r" "mStopRequested t' = mStopRequested t1"
    "mEosFromEncoder t' = mEosFromEncoder t1"
    using finishLoop_fields [of t1] by simp_all
  from c r have "r = AMEDIA_OK \<longleftrightarrow> mEosFromEncoder t1 \<and> mStatus t1 = AMEDIA_OK" by auto
  with l c r t' show ?thesis by auto
qed

lemma stopperAtFront_deliver:
  assumes "stopperAtFront t" "\<not> mAborted (mCodecMessageQueue t)"
  shows "stopperAtFront (deliver a t)"
proof -
  obtain m ms where q: "mQueue (mCodecMessageQueue t) = m # ms" and m: "stopper m"
    using assms(1) by (auto simp: stopperAtFront_def split: list.splits)
  show ?thesis
    using q m assms(2)
    by (cases a)
       (simp_all add: deliver_def onAsyncInputAvailable_def onAsyncOutputAvailable_def
          onAsyncFormatChanged_def onAsyncError_def abortTranscodeLoop_def pushMessage_def
          push_def stopperAtFront_def stopper_def)
qed

lemma execute_stopper:
  "stopper m \<Longrightarrow> \<not> loopCondition (execute w m t) \<and> sinkEvents (execute w m t) = sinkEvents t
     \<and> mActualOutputFormat (execute w m t) = mActualOutputFormat t"
  by (cases m) (simp_all add: stopper_def execute_def loopCondition_def)

lemma loop_stopped:
  "\<not> loopCondition t \<Longrightarrow>
   sinkEvents (outcomeState (codecMessageLoop schedule t)) = sinkEvents t
   \<and> mStatus (outcomeState (codecMessageLoop schedule t)) = mStatus t
   \<and> mActualOutputFormat (outcomeState (codecMessageLoop schedule t)) = mActualOutputFormat t"
  by (induction schedule t rule: codecMessageLoop.induct) simp_all

lemma loop_stopper_at_front:
  "stopperAtFront t \<Longrightarrow> \<not> mAborted (mCodecMessageQueue t) \<Longrightarrow>
   sinkEvents (outcomeState (codecMessageLoop schedule t)) = sinkEvents t"
proof (induction schedule arbitrary: t)
  case Nil
  then show ?case by simp
next
  case (Cons a rest)
  show ?case
  proof (cases "\<exists>w. a = Run w")
    case False
    then have "codecMessageLoop (a # rest) t = codecMessageLoop rest (deliver a t)"
      by (intro codecMessageLoop_deliver) simp
    moreover from stopperAtFront_deliver [OF Cons.prems] Cons.prems(2)
    have "sinkEvents (outcomeState (codecMessageLoop rest (deliver a t))) = sinkEvents (deliver a t)"
      by (intro Cons.IH) simp_all
    ultimately show ?thesis by simp
  next
    case True
    then obtain w where a: "a = Run w" ..
    show ?thesis
    proof (cases "loopCondition t")
      case False
      with a show ?thesis by simp
    next
      case True
      from Cons.prems(1) obtain m ms where q: "mQueue (mCodecMessageQueue t) = m # ms"
        and m: "stopper m"
        by (auto simp: stopperAtFront_def split: list.splits)
      let ?q = "(mCodecMessageQueue t)\<lparr>mQueue := ms\<rparr>"
      let ?t1 = "execute w m (t\<lparr>mCodecMessageQueue := ?q\<rparr>)"
      from q have p: "pop (mCodecMessageQueue t) = Some (m, ?q)" by (simp add: pop_def)
      from execute_stopper [OF m, of w "t\<lparr>mCodecMessageQueue := ?q\<rparr>"]
      have "\<not> loopCondition ?t1" "sinkEvents ?t1 = sinkEvents t" by simp_all
      with loop_stopped [of ?t1 rest] True p a show ?thesis by simp
    qed
  qed
qed

lemma onAsyncError_front:
  "\<not> mAborted (mCodecMessageQueue t) \<Longrightarrow>
   mQueue (mCodecMessageQueue (onAsyncError True codec e t))
     = CodecError e # mQueue (mCodecMessageQueue t)"
  by (simp add: onAsyncError_def pushMessage_def push_def)

text \<open>C5: on a queue that is not aborted, and with the transcoder alive, \<open>onAsyncError\<close>
  puts its message at the front of the queue, and running that message records the
  error status (and requests a stop). So when the error arrives while the loop is
  running, the next pass of the run thread runs the error message, with the backlog still
  in the queue, and the pass after that leaves the loop; from the moment the error is
  enqueued no event reaches the sink, whatever else arrives; and once an error status is
  recorded the loop runs no further message, so that \<open>runTranscodeLoop\<close> returns that
  status and the sink has got nothing more.\<close>

theorem codec_error_cuts_ahead:
  assumes "\<not> mAborted (mCodecMessageQueue t)"
  shows "mQueue (mCodecMessageQueue (onAsyncError True codec e t))
           = CodecError e # mQueue (mCodecMessageQueue t)
       \<and> execute w (CodecError e) t = t\<lparr>mStatus := e, mStopRequested := True\<rparr>
       \<and> (loopCondition t \<longrightarrow>
            codecMessageLoop (AsyncError True codec e # Run w # Run w' # rest) t
              = Exited (t\<lparr>mStatus := e, mStopRequested := True\<rparr>))
       \<and> sinkEvents (outcomeState (codecMessageLoop (AsyncError True codec e # rest) t))
            = sinkEvents t
       \<and> (\<forall>s1 s2 t0 t1 r t'. codecMessageLoop s1
                 (pushMessage StartEncoder False (pushMessage StartDecoder False t0)) = Waiting t1
             \<and> mStatus t1 \<noteq> AMEDIA_OK \<and> runTranscodeLoop (s1 @ s2) t0 = Some (r, t')
             \<longrightarrow> r = mStatus t1 \<and> sinkEvents t' = sinkEvents t1)"
proof -
  let ?te = "t\<lparr>mStatus := e, mStopRequested := True\<rparr>"
  have 1: "mQueue (mCodecMessageQueue (onAsyncError True codec e t))
           = CodecError e # mQueue (mCodecMessageQueue t)"
    using assms by (rule onAsyncError_front)
  have 2: "execute w (CodecError e) t = ?te" by (simp add: execute_def)
  have 3: "codecMessageLoop (AsyncError True codec e # Run w # Run w' # rest) t = Exited ?te"
    if "loopCondition t"
  proof -
    let ?t1 = "deliver (AsyncError True codec e) t"
    from assms have p: "pop (mCodecMessageQueue ?t1) = Some (CodecError e, mCodecMessageQueue t)"
      by (simp add: deliver_def onAsyncError_def pushMessage_def push_def pop_def)
    have q: "?t1\<lparr>mCodecMessageQueue := mCodecMessageQueue t\<rparr> = t"
      by (simp add: deliver_def onAsyncError_def pushMessage_def)
    have "\<not> loopCondition ?te" by (simp add: loopCondition_def)
    with that p q 2 show ?thesis by simp
  qed
  have 4: "sinkEvents (outcomeState (codecMessageLoop (AsyncError True codec e # rest) t))
            = sinkEvents t"
  proof -
    let ?t1 = "deliver (AsyncError True codec e) t"
    from 1 have "stopperAtFront ?t1"
      by (simp add: deliver_def stopperAtFront_def stopper_def)
    moreover from assms have "\<not> mAborted (mCodecMessageQueue ?t1)" by simp
    ultimately have "sinkEvents (outcomeState (codecMessageLoop rest ?t1)) = sinkEvents ?t1"
      by (rule loop_stopper_at_front)
    then show ?thesis by simp
  qed
  have 5: "r = mStatus t1 \<and> sinkEvents t' = sinkEvents t1"
    if a: "codecMessageLoop s1
                 (pushMessage StartEncoder False (pushMessage StartDecoder False t0)) = Waiting t1"
      "mStatus t1 \<noteq> AMEDIA_OK" "runTranscodeLoop (s1 @ s2) t0 = Some (r, t')"
    for s1 s2 t0 t1 r t'
  proof -
    from a(2) have nc: "\<not> loopCondition t1" by (simp add: loopCondition_def)
    from a(1,3) obtain t2 where l: "codecMessageLoop s2 t1 = Exited t2"
      and f: "finishLoop t2 = (r, t')"
      by (auto simp: runTranscodeLoop_def codecMessageLoop_append split: LoopOutcome.splits)
    from loop_stopped [OF nc, of s2] l have "sinkEvents t2 = sinkEvents t1" "mStatus t2 = mStatus t1"
      by simp_all
    with f a(2) show ?thesis
      by (auto simp: finishLoop_def codecCall_def Let_def)
  qed
  from 1 2 3 4 5 show ?thesis by blast
qed

subsection \<open>The track format\<close>

lemmas format_keys = AMEDIAFORMAT_KEY_SAR_WIDTH_def AMEDIAFORMAT_KEY_SAR_HEIGHT_def
  AMEDIAFORMAT_KEY_DISPLAY_WIDTH_def AMEDIAFORMAT_KEY_DISPLAY_HEIGHT_def
  AMEDIAFORMAT_KEY_ROTATION_def AMEDIAFORMAT_KEY_DURATION_def

lemma transferPair:
  "(case AMediaFormat_getInt32 source kw of
        None \<Rightarrow> f
      | Some w \<Rightarrow>
          if w > 0 then
            (case AMediaFormat_getInt32 source kh of
               None \<Rightarrow> f
             | Some h \<Rightarrow>
                 if h > 0
                 then AMediaFormat_setInt32 kh h (AMediaFormat_setInt32 kw w f)
                 else f)
          else f)
   = (\<lambda>k. if (k = kw \<or> k = kh) \<and> validPair source kw kh then source k else f k)"
  by (cases "source kw"; cases "source kh")
     (auto simp: AMediaFormat_getInt32_def AMediaFormat_setInt32_def validPair_def fun_eq_iff
        split: FormatValue.splits)

lemma transferSar_eq:
  "transferSar source f = (\<lambda>k. if (k = AMEDIAFORMAT_KEY_SAR_WIDTH \<or> k = AMEDIAFORMAT_KEY_SAR_HEIGHT)
       \<and> validPair source AMEDIAFORMAT_KEY_SAR_WIDTH AMEDIAFORMAT_KEY_SAR_HEIGHT
     then source k else f k)"
  unfolding transferSar_def by (rule transferPair)

lemma transferDar_eq:
  "transferDar source f = (\<lambda>k. if (k = AMEDIAFORMAT_KEY_DISPLAY_WIDTH \<or> k = AMEDIAFORMAT_KEY_DISPLAY_HEIGHT)
       \<and> validPair source AMEDIAFORMAT_KEY_DISPLAY_WIDTH AMEDIAFORMAT_KEY_DISPLAY_HEIGHT
     then source k else f k)"
  unfolding transferDar_def by (rule transferPair)

lemma transferRotation_eq:
  "transferRotation source f
   = (\<lambda>k. if k = AMEDIAFORMAT_KEY_ROTATION \<and> validRotation source then source k else f k)"
  by (cases "source AMEDIAFORMAT_KEY_ROTATION")
     (auto simp: transferRotation_def AMediaFormat_getInt32_def AMediaFormat_setInt32_def
        validRotation_def fun_eq_iff split: FormatValue.splits)

lemma transferDuration_eq:
  "transferDuration source f
   = (\<lambda>k. if k = AMEDIAFORMAT_KEY_DURATION \<and> validDuration source then source k else f k)"
  by (cases "source AMEDIAFORMAT_KEY_DURATION")
     (auto simp: transferDuration_def AMediaFormat_getInt64_def AMediaFormat_setInt64_def
        validDuration_def fun_eq_iff split: FormatValue.splits)

lemma transfers_overlaySpec:
  "transferDuration source (transferRotation source (transferDar source (transferSar source f)))
   = overlaySpec source f"
  unfolding transferSar_eq transferDar_eq transferRotation_eq transferDuration_eq overlaySpec_def
  by (rule ext) (simp add: format_keys)

text \<open>C9: the first format-changed event, when the copy of the encoder's format
  succeeds, publishes as actual output format the encoder's output format overlaid as
  the spec says, so that every key other than the six transferred ones has the encoder's
  value (or is absent as it is there), and notifies the sink.\<close>

theorem actual_output_format_is_overlay:
  assumes "mActualOutputFormat t = None" "formatCopySucceeds w"
  shows "mActualOutputFormat (updateTrackFormat w outputFormat t)
           = Some (overlaySpec (mSourceFormat t) outputFormat)
       \<and> (\<forall>k. k \<notin> transferredKeys \<longrightarrow>
             overlaySpec (mSourceFormat t) outputFormat k = outputFormat k)
       \<and> sinkEvents (updateTrackFormat w outputFormat t) = sinkEvents t @ [TrackFormatAvailable]"
proof -
  from assms have "mActualOutputFormat (updateTrackFormat w outputFormat t)
           = Some (overlaySpec (mSourceFormat t) outputFormat)"
    by (simp add: updateTrackFormat_def notifyTrackFormatAvailable_def transfers_overlaySpec)
  moreover have "\<forall>k. k \<notin> transferredKeys \<longrightarrow>
             overlaySpec (mSourceFormat t) outputFormat k = outputFormat k"
    by (simp add: overlaySpec_def transferredKeys_def)
  moreover from assms
  have "sinkEvents (updateTrackFormat w outputFormat t) = sinkEvents t @ [TrackFormatAvailable]"
    by (simp add: updateTrackFormat_def notifyTrackFormatAvailable_def)
  ultimately show ?thesis by blast
qed

subsection \<open>Format-changed events after the first\<close>

lemma updateTrackFormat_published:
  "mActualOutputFormat t \<noteq> None \<Longrightarrow> updateTrackFormat w f t = t"
  by (simp add: updateTrackFormat_def)

lemma updateTrackFormat_queue:
  "updateTrackFormat w f (t\<lparr>mCodecMessageQueue := q\<rparr>)
   = (updateTrackFormat w f t)\<lparr>mCodecMessageQueue := q\<rparr>"
  by (simp add: updateTrackFormat_def notifyTrackFormatAvailable_def)

lemma updateTrackFormat_first:
  "mActualOutputFormat (updateTrackFormat w f t) \<noteq> None \<or> \<not> loopCondition (updateTrackFormat w f t)"
  by (simp add: updateTrackFormat_def notifyTrackFormatAvailable_def loopCondition_def)

lemma other_handlers_format [simp]:
  "mActualOutputFormat (enqueueInputSample w i t) = mActualOutputFormat t"
  "mActualOutputFormat (transferBuffer w i b t) = mActualOutputFormat t"
  "mActualOutputFormat (dequeueOutputSample i b t) = mActualOutputFormat t"
  by (simp_all add: enqueueInputSample_def queueForDecode_def transferBuffer_def
      dequeueOutputSample_def onOutputSampleAvailable_def codecCall_def Let_def
      split: prod.splits option.splits)

lemma other_handlers_notify [simp]:
  "filter (\<lambda>e. e = TrackFormatAvailable) (sinkEvents (enqueueInputSample w i t))
     = filter (\<lambda>e. e = TrackFormatAvailable) (sinkEvents t)"
  "filter (\<lambda>e. e = TrackFormatAvailable) (sinkEvents (transferBuffer w i b t))
     = filter (\<lambda>e. e = TrackFormatAvailable) (sinkEvents t)"
  "filter (\<lambda>e. e = TrackFormatAvailable) (sinkEvents (dequeueOutputSample i b t))
     = filter (\<lambda>e. e = TrackFormatAvailable) (sinkEvents t)"
  by (simp_all add: enqueueInputSample_def queueForDecode_def transferBuffer_def
      dequeueOutputSample_def onOutputSampleAvailable_def codecCall_def Let_def
      split: prod.splits option.splits)

lemma execute_published:
  assumes "mActualOutputFormat t \<noteq> None"
  shows "mActualOutputFormat (execute w m t) = mActualOutputFormat t
       \<and> filter (\<lambda>e. e = TrackFormatAvailable) (sinkEvents (execute w m t))
           = filter (\<lambda>e. e = TrackFormatAvailable) (sinkEvents t)"
  using assms
  by (cases m) (simp_all add: execute_def codecCall_def Let_def updateTrackFormat_published)

lemma loop_published:
  "mActualOutputFormat t \<noteq> None \<or> \<not> loopCondition t \<Longrightarrow>
   mActualOutputFormat (outcomeState (codecMessageLoop schedule t)) = mActualOutputFormat t
   \<and> filter (\<lambda>e. e = TrackFormatAvailable) (sinkEvents (outcomeState (codecMessageLoop schedule t)))
       = filter (\<lambda>e. e = TrackFormatAvailable) (sinkEvents t)"
proof (induction schedule t rule: codecMessageLoop.induct)
  case (2 w rest t)
  show ?case
  proof (cases "loopCondition t")
    case False
    then show ?thesis by simp
  next
    case True
    with 2(3) have pub: "mActualOutputFormat t \<noteq> None" by simp
    show ?thesis
    proof (cases "pop (mCodecMessageQueue t)")
      case None
      with 2 True show ?thesis by simp
    next
      case (Some mq)
      obtain m q where mq: "mq = (m, q)" by (cases mq)
      let ?t1 = "execute w m (t\<lparr>mCodecMessageQueue := q\<rparr>)"
      from pub have "mActualOutputFormat (t\<lparr>mCodecMessageQueue := q\<rparr>) \<noteq> None" by simp
      from execute_published [OF this, of w m]
      have e: "mActualOutputFormat ?t1 = mActualOutputFormat t"
        "filter (\<lambda>e. e = TrackFormatAvailable) (sinkEvents ?t1)
           = filter (\<lambda>e. e = TrackFormatAvailable) (sinkEvents t)" by simp_all
      with pub have "mActualOutputFormat ?t1 \<noteq> None \<or> \<not> loopCondition ?t1" by simp
      from "2.IH"(2) [OF True Some mq [symmetric] this] e True Some mq
      show ?thesis by simp
    qed
  qed
qed simp_all

text \<open>The loop fed with format-changed events only, one pass for each.\<close>

lemma loop_only_format_events:
  "mActualOutputFormat t \<noteq> None \<or> \<not> loopCondition t \<Longrightarrow>
   mQueue (mCodecMessageQueue t) = map UpdateTrackFormat fs \<Longrightarrow>
   (outcomeState (codecMessageLoop (map Run ws) t))\<lparr>mCodecMessageQueue := q\<rparr>
     = t\<lparr>mCodecMessageQueue := q\<rparr>"
proof (induction ws arbitrary: t fs)
  case Nil
  then show ?case by simp
next
  case (Cons w ws)
  show ?case
  proof (cases "loopCondition t")
    case False
    then show ?thesis by simp
  next
    case True
    with Cons.prems have pub: "mActualOutputFormat t \<noteq> None" by simp
    show ?thesis
    proof (cases fs)
      case Nil
      with Cons.prems(2) have "pop (mCodecMessageQueue t) = None" by (simp add: pop_def)
      with True Cons.IH [OF Cons.prems(1), of "[]"] Cons.prems(2) Nil show ?thesis by simp
    next
      case (Cons f fs')
      let ?q = "(mCodecMessageQueue t)\<lparr>mQueue := map UpdateTrackFormat fs'\<rparr>"
      let ?t1 = "t\<lparr>mCodecMessageQueue := ?q\<rparr>"
      from Cons Cons.prems(2) have p: "pop (mCodecMessageQueue t) = Some (UpdateTrackFormat f, ?q)"
        by (simp add: pop_def)
      from pub have e: "execute w (UpdateTrackFormat f) ?t1 = ?t1"
        by (simp add: execute_def updateTrackFormat_published)
      from pub have "mActualOutputFormat ?t1 \<noteq> None \<or> \<not> loopCondition ?t1" by simp
      from Cons.IH [OF this, of fs'] have
        "(outcomeState (codecMessageLoop (map Run ws) ?t1))\<lparr>mCodecMessageQueue := q\<rparr>
           = ?t1\<lparr>mCodecMessageQueue := q\<rparr>" by simp
      with True p e show ?thesis by simp
    qed
  qed
qed

text \<open>The format-changed callbacks of a live transcoder, for the encoder, queue one
  \<open>UpdateTrackFormat\<close> message each at the back.\<close>

lemma updateTrackFormat_first_ok:
  "mActualOutputFormat t = None \<Longrightarrow> formatCopySucceeds w \<Longrightarrow>
   updateTrackFormat w f t
     = t\<lparr>mActualOutputFormat := Some (overlaySpec (mSourceFormat t) f),
          sinkEvents := sinkEvents t @ [TrackFormatAvailable]\<rparr>"
  by (simp add: updateTrackFormat_def notifyTrackFormatAvailable_def transfers_overlaySpec)

lemma updateTrackFormat_first_fails:
  "mActualOutputFormat t = None \<Longrightarrow> \<not> formatCopySucceeds w \<Longrightarrow>
   updateTrackFormat w f t = t\<lparr>mStatus := AMEDIA_ERROR_INVALID_PARAMETER\<rparr>"
  by (simp add: updateTrackFormat_def)

lemma loop_format_callbacks:
  "\<not> mAborted (mCodecMessageQueue t) \<Longrightarrow>
   codecMessageLoop (map (FormatChanged True (mEncoder t)) fs @ rest) t
   = codecMessageLoop rest
       (t\<lparr>mCodecMessageQueue := (mCodecMessageQueue t)
            \<lparr>mQueue := mQueue (mCodecMessageQueue t) @ map UpdateTrackFormat fs\<rparr>\<rparr>)"
proof (induction fs arbitrary: t)
  case Nil
  then show ?case by simp
next
  case (Cons f fs)
  let ?t1 = "t\<lparr>mCodecMessageQueue := (mCodecMessageQueue t)
            \<lparr>mQueue := mQueue (mCodecMessageQueue t) @ [UpdateTrackFormat f]\<rparr>\<rparr>"
  from Cons.prems have d: "deliver (FormatChanged True (mEncoder t) f) t = ?t1"
    by (simp add: deliver_def onAsyncFormatChanged_def pushMessage_def push_def)
  have "\<not> mAborted (mCodecMessageQueue ?t1)" using Cons.prems by simp
  from Cons.IH [OF this] d show ?case by simp
qed

text \<open>C8: the first format-changed event, run with nothing published yet and the copy of
  the encoder's format succeeding, publishes the encoder's format overlaid from the
  source format and notifies the sink once, and changes nothing else; if the copy fails it
  only records \<open>AMEDIA_ERROR_INVALID_PARAMETER\<close>. Once a format is published,
  \<open>updateTrackFormat\<close> changes nothing at all. After the first event has run, either a
  format is published or an error status is recorded, and from such a state the loop
  never changes the published format nor notifies the sink of a format again, whatever
  arrives. So a queue of format-changed events, run one pass each, leaves the transcoder
  (its queue apart) as running the first of them alone does; and any number of
  format-changed callbacks from the encoder on an empty queue, followed by one or more
  passes of the loop, publish the format of the first event, notify the sink once and
  change nothing else but the queue.\<close>

theorem format_changed_after_first_is_ignored:
  "(mActualOutputFormat t \<noteq> None \<longrightarrow> updateTrackFormat w f t = t)
       \<and> (mActualOutputFormat t = None \<and> formatCopySucceeds w \<longrightarrow>
            updateTrackFormat w f t
              = t\<lparr>mActualOutputFormat := Some (overlaySpec (mSourceFormat t) f),
                   sinkEvents := sinkEvents t @ [TrackFormatAvailable]\<rparr>)
       \<and> (mActualOutputFormat t = None \<and> \<not> formatCopySucceeds w \<longrightarrow>
            updateTrackFormat w f t = t\<lparr>mStatus := AMEDIA_ERROR_INVALID_PARAMETER\<rparr>)
       \<and> (mActualOutputFormat (updateTrackFormat w f t) \<noteq> None
            \<or> \<not> loopCondition (updateTrackFormat w f t))
       \<and> (mActualOutputFormat t \<noteq> None \<or> \<not> loopCondition t \<longrightarrow>
            mActualOutputFormat (outcomeState (codecMessageLoop schedule t)) = mActualOutputFormat t
            \<and> filter (\<lambda>e. e = TrackFormatAvailable)
                 (sinkEvents (outcomeState (codecMessageLoop schedule t)))
               = filter (\<lambda>e. e = TrackFormatAvailable) (sinkEvents t))
       \<and> (outcomeState (codecMessageLoop (map Run (w # ws))
              (t\<lparr>mCodecMessageQueue := (mCodecMessageQueue t)
                    \<lparr>mQueue := map UpdateTrackFormat (f # fs)\<rparr>\<rparr>)))\<lparr>mCodecMessageQueue := q\<rparr>
          = (outcomeState (codecMessageLoop [Run w]
              (t\<lparr>mCodecMessageQueue := (mCodecMessageQueue t)
                    \<lparr>mQueue := [UpdateTrackFormat f]\<rparr>\<rparr>)))\<lparr>mCodecMessageQueue := q\<rparr>
       \<and> (mActualOutputFormat t = None \<and> formatCopySucceeds w \<and> loopCondition t
            \<and> \<not> mAborted (mCodecMessageQueue t) \<and> mQueue (mCodecMessageQueue t) = [] \<longrightarrow>
            (outcomeState (codecMessageLoop
                (map (FormatChanged True (mEncoder t)) (f # fs) @ map Run (w # ws)) t))
              \<lparr>mCodecMessageQueue := q\<rparr>
            = t\<lparr>mActualOutputFormat := Some (overlaySpec (mSourceFormat t) f),
                 sinkEvents := sinkEvents t @ [TrackFormatAvailable],
                 mCodecMessageQueue := q\<rparr>)"
proof -
  have 1: "mActualOutputFormat t \<noteq> None \<longrightarrow> updateTrackFormat w f t = t"
    by (simp add: updateTrackFormat_published)
  have a1: "mActualOutputFormat t = None \<and> formatCopySucceeds w \<longrightarrow>
            updateTrackFormat w f t
              = t\<lparr>mActualOutputFormat := Some (overlaySpec (mSourceFormat t) f),
                   sinkEvents := sinkEvents t @ [TrackFormatAvailable]\<rparr>"
    by (simp add: updateTrackFormat_first_ok)
  have b1: "mActualOutputFormat t = None \<and> \<not> formatCopySucceeds w \<longrightarrow>
            updateTrackFormat w f t = t\<lparr>mStatus := AMEDIA_ERROR_INVALID_PARAMETER\<rparr>"
    by (simp add: updateTrackFormat_first_fails)
  note 2 = updateTrackFormat_first [of w f t]
  have 3: "mActualOutputFormat t \<noteq> None \<or> \<not> loopCondition t \<longrightarrow>
            mActualOutputFormat (outcomeState (codecMessageLoop schedule t)) = mActualOutputFormat t
            \<and> filter (\<lambda>e. e = TrackFormatAvailable)
                 (sinkEvents (outcomeState (codecMessageLoop schedule t)))
               = filter (\<lambda>e. e = TrackFormatAvailable) (sinkEvents t)"
    using loop_published [of t schedule] by blast
  let ?qa = "(mCodecMessageQueue t)\<lparr>mQueue := map UpdateTrackFormat (f # fs)\<rparr>"
  let ?qb = "(mCodecMessageQueue t)\<lparr>mQueue := [UpdateTrackFormat f]\<rparr>"
  let ?qe = "(mCodecMessageQueue t)\<lparr>mQueue := []\<rparr>"
  let ?t1 = "updateTrackFormat w f t"
  have pb: "pop ?qb = Some (UpdateTrackFormat f, ?qe)" by (simp add: pop_def)
  have eb: "execute w (UpdateTrackFormat f) (t\<lparr>mCodecMessageQueue := ?qe\<rparr>)
      = ?t1\<lparr>mCodecMessageQueue := ?qe\<rparr>"
    by (simp add: execute_def updateTrackFormat_queue)
  have 4: "(outcomeState (codecMessageLoop (map Run (w # ws))
              (t\<lparr>mCodecMessageQueue := ?qa\<rparr>)))\<lparr>mCodecMessageQueue := q\<rparr>
          = (outcomeState (codecMessageLoop [Run w]
              (t\<lparr>mCodecMessageQueue := ?qb\<rparr>)))\<lparr>mCodecMessageQueue := q\<rparr>"
  proof (cases "loopCondition t")
    case False
    then show ?thesis by simp
  next
    case True
    let ?qr = "(mCodecMessageQueue t)\<lparr>mQueue := map UpdateTrackFormat fs\<rparr>"
    have pa: "pop ?qa = Some (UpdateTrackFormat f, ?qr)" by (simp add: pop_def)
    have ea: "execute w (UpdateTrackFormat f) (t\<lparr>mCodecMessageQueue := ?qr\<rparr>)
        = ?t1\<lparr>mCodecMessageQueue := ?qr\<rparr>"
      by (simp add: execute_def updateTrackFormat_queue)
    from 2 have "mActualOutputFormat (?t1\<lparr>mCodecMessageQueue := ?qr\<rparr>) \<noteq> None
        \<or> \<not> loopCondition (?t1\<lparr>mCodecMessageQueue := ?qr\<rparr>)" by simp
    from loop_only_format_events [OF this, where fs = fs and ws = ws and q = q]
    have "(outcomeState (codecMessageLoop (map Run ws) (?t1\<lparr>mCodecMessageQueue := ?qr\<rparr>)))
            \<lparr>mCodecMessageQueue := q\<rparr> = ?t1\<lparr>mCodecMessageQueue := q\<rparr>" by simp
    with True pa pb ea eb show ?thesis by simp
  qed
  have 5: "mActualOutputFormat t = None \<and> formatCopySucceeds w \<and> loopCondition t
            \<and> \<not> mAborted (mCodecMessageQueue t) \<and> mQueue (mCodecMessageQueue t) = [] \<longrightarrow>
            (outcomeState (codecMessageLoop
                (map (FormatChanged True (mEncoder t)) (f # fs) @ map Run (w # ws)) t))
              \<lparr>mCodecMessageQueue := q\<rparr>
            = t\<lparr>mActualOutputFormat := Some (overlaySpec (mSourceFormat t) f),
                 sinkEvents := sinkEvents t @ [TrackFormatAvailable],
                 mCodecMessageQueue := q\<rparr>"
  proof (intro impI, elim conjE)
    assume h: "mActualOutputFormat t = None" "formatCopySucceeds w" "loopCondition t"
      "\<not> mAborted (mCodecMessageQueue t)" "mQueue (mCodecMessageQueue t) = []"
    from loop_format_callbacks [OF h(4), of "f # fs" "map Run (w # ws)"] h(5)
    have "codecMessageLoop (map (FormatChanged True (mEncoder t)) (f # fs) @ map Run (w # ws)) t
        = codecMessageLoop (map Run (w # ws)) (t\<lparr>mCodecMessageQueue := ?qa\<rparr>)" by simp
    moreover from h(3) pb eb
    have "outcomeState (codecMessageLoop [Run w] (t\<lparr>mCodecMessageQueue := ?qb\<rparr>))
        = ?t1\<lparr>mCodecMessageQueue := ?qe\<rparr>" by simp
    moreover note 4 updateTrackFormat_first_ok [OF h(1,2), of f]
    ultimately show "(outcomeState (codecMessageLoop
                (map (FormatChanged True (mEncoder t)) (f # fs) @ map Run (w # ws)) t))
              \<lparr>mCodecMessageQueue := q\<rparr>
            = t\<lparr>mActualOutputFormat := Some (overlaySpec (mSourceFormat t) f),
                 sinkEvents := sinkEvents t @ [TrackFormatAvailable],
                 mCodecMessageQueue := q\<rparr>" by simp
  qed
  from 1 a1 b1 2 3 4 5 show ?thesis by blast
qed

lemma cleanRun_result:
  "map_option fst (runTranscodeLoop cleanRun exampleTranscoder) = Some AMEDIA_OK"
  by code_simp

lemma abortedRun_result:
  "map_option fst (runTranscodeLoop [Abort, Run exampleWorld, Run exampleWorld] exampleTranscoder)
   = Some AMEDIA_ERROR_UNKNOWN"
  by code_simp

theorem runTranscodeLoop_result_witness:
  "map_option fst (runTranscodeLoop cleanRun exampleTranscoder) = Some AMEDIA_OK
   \<and> (\<exists>t1. codecMessageLoop cleanRun (pushMessage StartEncoder False
               (pushMessage StartDecoder False exampleTranscoder)) = Exited t1
         \<and> mEosFromEncoder t1 \<and> mStatus t1 = AMEDIA_OK)
   \<and> map_option fst (runTranscodeLoop [Abort, Run exampleWorld, Run exampleWorld]
        exampleTranscoder) = Some AMEDIA_ERROR_UNKNOWN"
proof -
  from cleanRun_result obtain t' where
    "runTranscodeLoop cleanRun exampleTranscoder = Some (AMEDIA_OK, t')"
    by (cases "runTranscodeLoop cleanRun exampleTranscoder") auto
  from runTranscodeLoop_result [OF this]
  have "\<exists>t1. codecMessageLoop cleanRun (pushMessage StartEncoder False
               (pushMessage StartDecoder False exampleTranscoder)) = Exited t1
         \<and> mEosFromEncoder t1 \<and> mStatus t1 = AMEDIA_OK" by auto
  with cleanRun_result abortedRun_result show ?thesis by simp
qed

theorem codec_error_cuts_ahead_witness:
  "\<not> mAborted (mCodecMessageQueue busyTranscoder) \<and> loopCondition busyTranscoder
   \<and> codecMessageLoop [AsyncError True 2 (AMEDIA_ERROR_OTHER 1100), Run exampleWorld,
        Run exampleWorld] busyTranscoder
      = Exited (busyTranscoder\<lparr>mStatus := AMEDIA_ERROR_OTHER 1100, mStopRequested := True\<rparr>)
   \<and> mQueue (mCodecMessageQueue busyTranscoder)
      = [EnqueueInputSample 0, OutputAvailable 2 1 frameInfo]"
proof -
  have a: "\<not> mAborted (mCodecMessageQueue busyTranscoder)"
    by (simp add: busyTranscoder_def)
  have c: "loopCondition busyTranscoder"
    by (simp add: busyTranscoder_def exampleTranscoder_def loopCondition_def)
  from codec_error_cuts_ahead [OF a, of 2 "AMEDIA_ERROR_OTHER 1100" exampleWorld exampleWorld "[]"]
    a c show ?thesis by (simp add: busyTranscoder_def)
qed

theorem actual_output_format_is_overlay_witness:
  "mActualOutputFormat exampleTranscoder = None \<and> formatCopySucceeds exampleWorld
   \<and> (\<exists>f. mActualOutputFormat (updateTrackFormat exampleWorld exampleEncoderFormat
              exampleTranscoder) = Some f
        \<and> f ''sar-width'' = Some (Int32 4) \<and> f ''sar-height'' = Some (Int32 3)
        \<and> f ''display-width'' = Some (Int32 1920) \<and> f ''display-height'' = None
        \<and> f ''rotation-degrees'' = Some (Int32 90) \<and> f ''durationUs'' = Some (Int64 5000000)
        \<and> f ''mime'' = Some (StringValue ''video/avc'')
        \<and> f ''csd-0'' = Some (BufferValue [0, 0, 0, 1]))"
proof -
  have n: "mActualOutputFormat exampleTranscoder = None" by (simp add: exampleTranscoder_def)
  have s: "formatCopySucceeds exampleWorld" by (simp add: exampleWorld_def)
  have src: "mSourceFormat exampleTranscoder = exampleSourceFormat"
    by (simp add: exampleTranscoder_def)
  from actual_output_format_is_overlay [OF n s, of exampleEncoderFormat]
  have "mActualOutputFormat (updateTrackFormat exampleWorld exampleEncoderFormat exampleTranscoder)
      = Some (overlaySpec exampleSourceFormat exampleEncoderFormat)"
    by (simp add: src)
  moreover have "overlaySpec exampleSourceFormat exampleEncoderFormat ''sar-width'' = Some (Int32 4)"
    "overlaySpec exampleSourceFormat exampleEncoderFormat ''sar-height'' = Some (Int32 3)"
    "overlaySpec exampleSourceFormat exampleEncoderFormat ''display-width'' = Some (Int32 1920)"
    "overlaySpec exampleSourceFormat exampleEncoderFormat ''display-height'' = None"
    "overlaySpec exampleSourceFormat exampleEncoderFormat ''rotation-degrees'' = Some (Int32 90)"
    "overlaySpec exampleSourceFormat exampleEncoderFormat ''durationUs'' = Some (Int64 5000000)"
    "overlaySpec exampleSourceFormat exampleEncoderFormat ''mime'' = Some (StringValue ''video/avc'')"
    "overlaySpec exampleSourceFormat exampleEncoderFormat ''csd-0'' = Some (BufferValue [0, 0, 0, 1])"
    by (simp_all add: overlaySpec_def validPair_def validRotation_def validDuration_def
        format_keys exampleSourceFormat_def exampleEncoderFormat_def)
  ultimately show ?thesis using n s by simp
qed

theorem format_changed_after_first_is_ignored_witness:
  "mActualOutputFormat exampleTranscoder = None \<and> formatCopySucceeds exampleWorld
   \<and> \<not> formatCopySucceeds failingWorld \<and> loopCondition exampleTranscoder
   \<and> updateTrackFormat exampleWorld exampleEncoderFormat exampleTranscoder = firstFormatPublished
   \<and> updateTrackFormat exampleWorld lateFormat firstFormatPublished = firstFormatPublished
   \<and> updateTrackFormat failingWorld exampleEncoderFormat exampleTranscoder
       = exampleTranscoder\<lparr>mStatus := AMEDIA_ERROR_INVALID_PARAMETER\<rparr>
   \<and> mActualOutputFormat (outcomeState (codecMessageLoop formatEvents exampleTranscoder))
       = Some (overlaySpec exampleSourceFormat exampleEncoderFormat)
   \<and> sinkEvents (outcomeState (codecMessageLoop formatEvents exampleTranscoder))
       = [TrackFormatAvailable]
   \<and> overlaySpec exampleSourceFormat exampleEncoderFormat ''rotation-degrees'' = Some (Int32 90)
   \<and> overlaySpec exampleSourceFormat exampleEncoderFormat ''display-width'' = Some (Int32 1920)
   \<and> lateFormat ''rotation-degrees'' = Some (Int32 180)"
proof -
  have n: "mActualOutputFormat exampleTranscoder = None" by (simp add: exampleTranscoder_def)
  have s: "formatCopySucceeds exampleWorld" "\<not> formatCopySucceeds failingWorld"
    by (simp_all add: exampleWorld_def failingWorld_def)
  have c: "loopCondition exampleTranscoder"
    by (simp add: exampleTranscoder_def loopCondition_def)
  have q: "\<not> mAborted (mCodecMessageQueue exampleTranscoder)"
    "mQueue (mCodecMessageQueue exampleTranscoder) = []"
    "mEncoder exampleTranscoder = 2" "mSourceFormat exampleTranscoder = exampleSourceFormat"
    "sinkEvents exampleTranscoder = []"
    by (simp_all add: exampleTranscoder_def)
  have p: "mActualOutputFormat firstFormatPublished \<noteq> None"
    by (simp add: firstFormatPublished_def)
  have v: "overlaySpec exampleSourceFormat exampleEncoderFormat ''rotation-degrees''
        = Some (Int32 90)"
    "overlaySpec exampleSourceFormat exampleEncoderFormat ''display-width'' = Some (Int32 1920)"
    "lateFormat ''rotation-degrees'' = Some (Int32 180)"
    by (simp_all add: overlaySpec_def validPair_def validRotation_def validDuration_def
        format_keys exampleSourceFormat_def exampleEncoderFormat_def lateFormat_def)
  let ?out = "outcomeState (codecMessageLoop formatEvents exampleTranscoder)"
  from format_changed_after_first_is_ignored [where t = exampleTranscoder and w = exampleWorld and f = exampleEncoderFormat
      and ws = "[failingWorld, exampleWorld]" and fs = "[lateFormat]"
      and q = "mCodecMessageQueue exampleTranscoder"] n s c q
  have first: "updateTrackFormat exampleWorld exampleEncoderFormat exampleTranscoder
        = firstFormatPublished"
    and run: "?out\<lparr>mCodecMessageQueue := mCodecMessageQueue exampleTranscoder\<rparr>
        = firstFormatPublished"
    by (simp_all add: firstFormatPublished_def formatEvents_def)
  from arg_cong [OF run, of mActualOutputFormat] arg_cong [OF run, of sinkEvents]
  have out: "mActualOutputFormat ?out = Some (overlaySpec exampleSourceFormat exampleEncoderFormat)"
    "sinkEvents ?out = [TrackFormatAvailable]"
    by (simp_all add: firstFormatPublished_def)
  from format_changed_after_first_is_ignored [where t = firstFormatPublished and w = exampleWorld and f = lateFormat] p
  have later: "updateTrackFormat exampleWorld lateFormat firstFormatPublished
        = firstFormatPublished" by simp
  from format_changed_after_first_is_ignored [where t = exampleTranscoder and w = failingWorld and f = exampleEncoderFormat] n s
  have fails: "updateTrackFormat failingWorld exampleEncoderFormat exampleTranscoder
       = exampleTranscoder\<lparr>mStatus := AMEDIA_ERROR_INVALID_PARAMETER\<rparr>" by simp
  from n s c first later fails out v show ?thesis by simp
qed

end
